theory Spec2Isabelle
  imports Complex_Main "HOL-Library.Word"
begin

unbundle bit_operations_syntax

section \<open>Scheduler: the task queue (scheduler.h, scheduler.cc)\<close>

text \<open>
  Fibers and callbacks are opaque to the queue; a fiber handle (\<open>std::shared_ptr<Fiber>\<close>)
  and a callback (\<open>std::function<void()>\<close>) are modelled by an optional identifier, \<open>None\<close>
  being the null pointer and the empty function.
\<close>

type_synonym fiber_ref = "nat option"

type_synonym callback = "nat option"

record ScheduleTask =
  task_fiber :: fiber_ref
  task_cb :: callback
  task_thread :: int

text \<open>The argument of the template \<open>scheduleLock<FiberOrCb>\<close>: a fiber or a callback.\<close>

datatype FiberOrCb = FiberArg fiber_ref | CbArg callback


text \<open>
  The part of the scheduler that the queue operations read and write. \<open>tickle_calls\<close>
  counts the calls of the virtual \<open>tickle()\<close> (a no-op in \<open>Scheduler\<close>, a write to the
  self-pipe in \<open>IOManager\<close>); \<open>cerr\<close> is what has been written to \<open>std::cerr\<close>.
\<close>

record Scheduler =
  m_tasks :: "ScheduleTask list"
  m_stopping :: bool
  m_activeThreadCount :: nat
  m_threadCount :: nat
  m_threads :: nat
  m_hasSchedulerFiber :: bool
  tickle_calls :: nat
  cerr :: "string list"

definition tickle :: "Scheduler \<Rightarrow> Scheduler" where
  "tickle s = s\<lparr>tickle_calls := tickle_calls s + 1\<rparr>"



text \<open>\<open>Scheduler::start\<close>: refuses with a message on \<open>std::cerr\<close> once the stopping flag is
  set; otherwise it asserts that no thread exists yet (\<open>None\<close> is the failed assertion)
  and creates \<open>m_threadCount\<close> threads.\<close>

definition start :: "Scheduler \<Rightarrow> Scheduler option" where
  "start s =
     (if m_stopping s then Some (s\<lparr>cerr := cerr s @ [''Scheduler is stopped'']\<rparr>)
      else if m_threads s \<noteq> 0 then None
      else Some (s\<lparr>m_threads := m_threadCount s\<rparr>))"



section \<open>Fd registry (fdManager.h, fdManager.cc)\<close>

text \<open>What can go wrong below the level of return values: a failed \<open>assert\<close>, an index
  outside a \<open>std::vector\<close>, a call through a null pointer, and the conversion to \<open>size_t\<close> of
  a \<open>double\<close> below \<open>-1\<close> (undefined behaviour).\<close>

datatype fault = AssertionFailed | OutOfRange | NullDeref | BadConversion

text \<open>An \<open>int\<close> converted to \<open>size_t\<close>, as in the comparison \<open>m_datas.size() <= fd\<close> and in
  the index of \<open>operator[]\<close>.\<close>

definition to_size_t :: "int \<Rightarrow> nat" where
  "to_size_t i = nat (i mod 2 ^ 64)"

text \<open>The vector size computed by \<open>fd * 1.5\<close>: the product is a \<open>double\<close>, exact for every
  \<open>int\<close>, and its conversion to \<open>size_t\<close> truncates.\<close>

definition grow_size :: "int \<Rightarrow> nat option" where
  "grow_size fd = (if fd < 0 then None else Some (nat ((3 * fd) div 2)))"

text \<open>\<open>std::vector::resize\<close> with value-initialised new elements.\<close>

definition resize :: "nat \<Rightarrow> 'a \<Rightarrow> 'a list \<Rightarrow> 'a list" where
  "resize n d xs = take n xs @ replicate (n - length xs) d"

record FdCtx =
  m_isInit :: bool
  m_isSocket :: bool
  m_sysNonblock :: bool
  m_userNonblock :: bool
  m_isClosed :: bool
  m_fd :: int
  m_recvTimeout :: "64 word"
  m_sendTimeout :: "64 word"

text \<open>The constructor \<open>FdCtx(fd)\<close> runs \<open>init()\<close>. The answer of \<open>fstat\<close> is the parameter
  \<open>probe\<close>: \<open>None\<close> when it fails, otherwise whether the descriptor is a socket.\<close>

definition new_FdCtx :: "int \<Rightarrow> bool option \<Rightarrow> FdCtx" where
  "new_FdCtx fd probe =
     \<lparr>m_isInit = (probe \<noteq> None), m_isSocket = (probe = Some True),
      m_sysNonblock = (probe = Some True), m_userNonblock = False, m_isClosed = False,
      m_fd = fd, m_recvTimeout = - 1, m_sendTimeout = - 1\<rparr>"

definition SO_RCVTIMEO :: int where "SO_RCVTIMEO = 20"

definition SO_SNDTIMEO :: int where "SO_SNDTIMEO = 21"

definition getTimeout :: "FdCtx \<Rightarrow> int \<Rightarrow> 64 word" where
  "getTimeout c type =
     (if type = SO_RCVTIMEO then m_recvTimeout c
      else if type = SO_SNDTIMEO then m_sendTimeout c
      else - 1)"

text \<open>\<open>FdCtx::init\<close> called again on an existing context: it probes only a context that is
  not initialised yet.\<close>

definition init :: "FdCtx \<Rightarrow> bool option \<Rightarrow> FdCtx" where
  "init c probe =
     (if m_isInit c then c
      else c\<lparr>m_isInit := (probe \<noteq> None), m_isSocket := (probe = Some True),
             m_sysNonblock := (probe = Some True)\<rparr>)"

text \<open>\<open>FdCtx::setTimeout\<close>, \<open>FdCtx::setUserNonblock\<close> and \<open>FdCtx::setSysNonblock\<close>. These,
  \<open>init\<close> and the constructor are all the code that writes a field of a context;
  \<open>m_isClosed\<close> is private and has no setter.\<close>

definition setTimeout :: "FdCtx \<Rightarrow> int \<Rightarrow> 64 word \<Rightarrow> FdCtx" where
  "setTimeout c type v =
     (if type = SO_RCVTIMEO then c\<lparr>m_recvTimeout := v\<rparr>
      else if type = SO_SNDTIMEO then c\<lparr>m_sendTimeout := v\<rparr>
      else c\<lparr>m_recvTimeout := - 1, m_sendTimeout := - 1\<rparr>)"

definition setUserNonblock :: "FdCtx \<Rightarrow> bool \<Rightarrow> FdCtx" where
  "setUserNonblock c v = c\<lparr>m_userNonblock := v\<rparr>"

definition setSysNonblock :: "FdCtx \<Rightarrow> bool \<Rightarrow> FdCtx" where
  "setSysNonblock c v = c\<lparr>m_sysNonblock := v\<rparr>"

text \<open>\<open>FdManager::get\<close> on the vector \<open>m_datas\<close> of nullable shared pointers.\<close>

definition get ::
  "FdCtx option list \<Rightarrow> int \<Rightarrow> bool \<Rightarrow> bool option \<Rightarrow> fault + (FdCtx option \<times> FdCtx option list)"
where
  "get datas fd auto_create probe =
     (if fd = - 1 then Inr (None, datas)
      else if length datas \<le> to_size_t fd \<and> \<not> auto_create then Inr (None, datas)
      else if \<not> length datas \<le> to_size_t fd \<and> (datas ! to_size_t fd \<noteq> None \<or> \<not> auto_create)
        then Inr (datas ! to_size_t fd, datas)
      else
        (case (if length datas \<le> to_size_t fd
               then map_option (\<lambda>n. resize n None datas) (grow_size fd)
               else Some datas) of
           None \<Rightarrow> Inl BadConversion
         | Some datas1 \<Rightarrow>
             if length datas1 \<le> to_size_t fd then Inl OutOfRange
             else Inr (Some (new_FdCtx fd probe),
                       datas1[to_size_t fd := Some (new_FdCtx fd probe)])))"

text \<open>\<open>FdManager::del\<close>.\<close>

definition del :: "FdCtx option list \<Rightarrow> int \<Rightarrow> FdCtx option list" where
  "del datas fd = (if length datas \<le> to_size_t fd then datas else datas[to_size_t fd := None])"

text \<open>The registry as \<open>FdManager::FdManager\<close> leaves it.\<close>

definition fdManager0 :: "FdCtx option list" where
  "fdManager0 = resize 64 None []"

section \<open>Hook layer: the generic I/O template (hook.cc)\<close>

definition EINTR :: int where "EINTR = 4"

definition EBADF :: int where "EBADF = 9"

definition EAGAIN :: int where "EAGAIN = 11"

definition ETIMEDOUT :: int where "ETIMEDOUT = 110"

text \<open>
  \<open>do_io\<close> talks to its environment: it calls the original function, it calls
  \<open>IOManager::addEvent\<close>, and it yields and is resumed. The model reads the environment's
  answers from a script, in the order in which \<open>do_io\<close> asks:
  \<^item> \<open>FunRet n e\<close>: the original function returned \<open>n\<close> and \<open>errno\<close> reads \<open>e\<close>;
  \<^item> \<open>AddEventRet rt\<close>: \<open>addEvent\<close> returned \<open>rt\<close>;
  \<^item> \<open>Resumed fired\<close>: the fiber runs again after its yield, \<open>fired\<close> telling whether
    the condition timer has set \<open>tinfo->cancelled\<close> to \<open>ETIMEDOUT\<close> meanwhile.
  A script that ends early, or answers a question that was not asked, gives \<open>None\<close>.
  The result records the value returned, the \<open>errno\<close> that \<open>do_io\<close> itself assigns (if
  any), and how often the original function was called.
\<close>

datatype io_event = FunRet int int | AddEventRet int | Resumed bool

record io_result =
  ret :: int
  errno_set :: "int option"
  calls :: nat

fun call_original :: "io_event list \<Rightarrow> io_result option" where
  "call_original (FunRet n e # rest) = Some \<lparr>ret = n, errno_set = None, calls = 1\<rparr>"
| "call_original _ = None"

text \<open>The code from the label \<open>retry\<close> on; \<open>k\<close> counts the calls made so far.\<close>

fun retry :: "64 word \<Rightarrow> io_event list \<Rightarrow> nat \<Rightarrow> io_result option" where
  "retry timeout (FunRet n e # rest) k =
     (if n = - 1 \<and> e = EINTR then retry timeout rest (k + 1)
      else if n = - 1 \<and> e = EAGAIN then
        (case rest of
           AddEventRet rt # rest1 \<Rightarrow>
             if rt = - 1 then Some \<lparr>ret = - 1, errno_set = None, calls = k + 1\<rparr>
             else
               (case rest1 of
                  Resumed fired # rest2 \<Rightarrow>
                    if timeout \<noteq> - 1 \<and> fired
                    then Some \<lparr>ret = - 1, errno_set = Some ETIMEDOUT, calls = k + 1\<rparr>
                    else retry timeout rest2 (k + 1)
                | _ \<Rightarrow> None)
         | _ \<Rightarrow> None)
      else Some \<lparr>ret = n, errno_set = None, calls = k + 1\<rparr>)"
| "retry timeout _ k = None"

text \<open>\<open>do_io\<close>: the context comes from \<open>FdMgr::GetInstance()->get(fd)\<close>, which never
  creates an entry and so neither fails nor changes the registry.\<close>

definition lookup :: "FdCtx option list \<Rightarrow> int \<Rightarrow> FdCtx option" where
  "lookup datas fd = (case get datas fd False None of Inr (c, _) \<Rightarrow> c | Inl _ \<Rightarrow> None)"

definition do_io ::
  "bool \<Rightarrow> FdCtx option list \<Rightarrow> int \<Rightarrow> int \<Rightarrow> io_event list \<Rightarrow> io_result option"
where
  "do_io hook_enable datas fd timeout_so script =
     (if \<not> hook_enable then call_original script
      else
        (case lookup datas fd of
           None \<Rightarrow> call_original script
         | Some ctx \<Rightarrow>
             if m_isClosed ctx then Some \<lparr>ret = - 1, errno_set = Some EBADF, calls = 0\<rparr>
             else if \<not> m_isSocket ctx \<or> m_userNonblock ctx then call_original script
             else retry (getTimeout ctx timeout_so) script 0))"

section \<open>I/O manager (ioManager.h, ioManager.cc)\<close>

text \<open>The enumeration \<open>IOManager::Event\<close>; event masks are its values combined bitwise.\<close>

datatype Event = NONE | READ | WRITE

fun event_bits :: "Event \<Rightarrow> 32 word" where
  "event_bits NONE = 0"
| "event_bits READ = 1"
| "event_bits WRITE = 4"

definition EPOLLIN :: "32 word" where "EPOLLIN = 1"

definition EPOLLOUT :: "32 word" where "EPOLLOUT = 4"

definition EPOLLERR :: "32 word" where "EPOLLERR = 8"

definition EPOLLHUP :: "32 word" where "EPOLLHUP = 16"

definition EPOLLET :: "32 word" where "EPOLLET = 2147483648"

record EventContext =
  scheduler :: "nat option"
  fiber :: fiber_ref
  cb :: callback

definition no_EventContext :: EventContext where
  "no_EventContext = \<lparr>scheduler = None, fiber = None, cb = None\<rparr>"

text \<open>\<open>FdContext\<close>: the fields \<open>read\<close>, \<open>write\<close>, \<open>fd\<close> and \<open>events\<close> of the source (the mutex
  has no counterpart in a sequential model).\<close>

record FdContext =
  read_ctx :: EventContext
  write_ctx :: EventContext
  ctx_fd :: int
  events :: "32 word"

definition new_FdContext :: "int \<Rightarrow> FdContext" where
  "new_FdContext i =
     \<lparr>read_ctx = no_EventContext, write_ctx = no_EventContext, ctx_fd = i, events = 0\<rparr>"

text \<open>\<open>FdContext::getEventContext\<close> asserts that the event is \<open>READ\<close> or \<open>WRITE\<close>.\<close>

fun getEventContext :: "Event \<Rightarrow> FdContext \<Rightarrow> EventContext option" where
  "getEventContext READ c = Some (read_ctx c)"
| "getEventContext WRITE c = Some (write_ctx c)"
| "getEventContext NONE c = None"

text \<open>Assignment through the reference that \<open>getEventContext\<close> returns.\<close>

fun setEventContext :: "Event \<Rightarrow> EventContext \<Rightarrow> FdContext \<Rightarrow> FdContext" where
  "setEventContext READ e c = c\<lparr>read_ctx := e\<rparr>"
| "setEventContext WRITE e c = c\<lparr>write_ctx := e\<rparr>"
| "setEventContext NONE e c = c"

text \<open>
  The kernel's side of \<open>epoll_ctl\<close> on \<open>_m_epfd\<close>: the interest list maps a descriptor to
  the event mask registered for it. \<open>EPOLL_CTL_ADD\<close> fails on a descriptor already in the
  list, \<open>EPOLL_CTL_MOD\<close> and \<open>EPOLL_CTL_DEL\<close> fail on one that is not, and every operation
  fails on a descriptor the kernel does not accept (closed, or of a kind that cannot be
  polled). \<open>None\<close> is a non-zero return value.
\<close>

datatype epoll_op = EPOLL_CTL_ADD | EPOLL_CTL_DEL | EPOLL_CTL_MOD

definition epoll_ctl ::
  "(int \<Rightarrow> bool) \<Rightarrow> (int \<Rightarrow> 32 word option) \<Rightarrow> epoll_op \<Rightarrow> int \<Rightarrow> 32 word
     \<Rightarrow> (int \<Rightarrow> 32 word option) option"
where
  "epoll_ctl pollable k op fd ev =
     (if \<not> pollable fd then None
      else case op of
          EPOLL_CTL_ADD \<Rightarrow> (if k fd = None then Some (k(fd \<mapsto> ev)) else None)
        | EPOLL_CTL_MOD \<Rightarrow> (if k fd = None then None else Some (k(fd \<mapsto> ev)))
        | EPOLL_CTL_DEL \<Rightarrow> (if k fd = None then None else Some (k(fd := None))))"

text \<open>
  The state of an \<open>IOManager\<close>. \<open>scheduled\<close> lists the calls of \<open>scheduleLock\<close> that
  \<open>triggerEvent\<close> has made, each with the scheduler it was made on.
\<close>

record IOManager =
  m_pollable :: "int \<Rightarrow> bool"
  m_epoll :: "int \<Rightarrow> 32 word option"
  m_pendingEventCount :: "64 word"
  m_fdContexts :: "FdContext list"
  scheduled :: "(nat \<times> FiberOrCb) list"

text \<open>What a call reads from thread-local storage: \<open>Scheduler::GetThis()\<close>, and the fiber
  \<open>Fiber::GetThis()\<close> with its state.\<close>

datatype State = READY | RUNNING | TERM

record thread_env =
  t_scheduler :: "nat option"
  t_fiber :: nat
  t_fiber_state :: State

text \<open>\<open>(int)_m_fdContexts.size()\<close>: the size reduced to 32 bits and read as signed.\<close>

definition int_of_size :: "nat \<Rightarrow> int" where
  "int_of_size n = (let m = int n mod 2 ^ 32 in if m < 2 ^ 31 then m else m - 2 ^ 32)"

text \<open>\<open>IOManager::contextResize\<close>: every new slot gets a fresh \<open>FdContext\<close> that knows its
  index. (All slots are filled by the constructor's call, so no slot is ever null.)\<close>

definition contextResize :: "nat \<Rightarrow> FdContext list \<Rightarrow> FdContext list" where
  "contextResize n tbl = take n tbl @ map (\<lambda>i. new_FdContext (int i)) [length tbl ..< n]"

text \<open>\<open>IOManager::addEvent\<close>.\<close>

definition addEvent ::
  "IOManager \<Rightarrow> int \<Rightarrow> Event \<Rightarrow> callback \<Rightarrow> thread_env \<Rightarrow> fault + (int \<times> IOManager)"
where
  "addEvent s fd event f env =
     (case (if int_of_size (length (m_fdContexts s)) > fd then Some (m_fdContexts s)
            else map_option (\<lambda>n. contextResize n (m_fdContexts s)) (grow_size fd)) of
        None \<Rightarrow> Inl BadConversion
      | Some tbl \<Rightarrow>
          if length tbl \<le> to_size_t fd then Inl OutOfRange
          else
            (let fd_ctx = tbl ! to_size_t fd; s1 = s\<lparr>m_fdContexts := tbl\<rparr> in
             if events fd_ctx AND event_bits event \<noteq> 0 then Inr (- 1, s1)
             else
               (case epoll_ctl (m_pollable s) (m_epoll s)
                       (if events fd_ctx \<noteq> 0 then EPOLL_CTL_MOD else EPOLL_CTL_ADD) fd
                       (EPOLLET OR events fd_ctx OR event_bits event) of
                  None \<Rightarrow> Inr (- 1, s1)
                | Some k \<Rightarrow>
                    (case getEventContext event fd_ctx of
                       None \<Rightarrow> Inl AssertionFailed
                     | Some event_ctx \<Rightarrow>
                         if event_ctx \<noteq> no_EventContext then Inl AssertionFailed
                         else if f = None \<and> t_fiber_state env \<noteq> RUNNING then Inl AssertionFailed
                         else Inr (0, s1\<lparr>m_epoll := k,
                           m_pendingEventCount := m_pendingEventCount s + 1,
                           m_fdContexts := tbl[to_size_t fd :=
                             setEventContext event
                               \<lparr>scheduler = t_scheduler env,
                                fiber = (if f \<noteq> None then None else Some (t_fiber env)),
                                cb = f\<rparr>
                               (fd_ctx\<lparr>events := events fd_ctx OR event_bits event\<rparr>)]\<rparr>)))))"

text \<open>\<open>FdContext::triggerEvent\<close>: the context with the event cleared, and the call of
  \<open>scheduleLock\<close> it makes.\<close>

definition triggerEvent :: "Event \<Rightarrow> FdContext \<Rightarrow> fault + (FdContext \<times> (nat \<times> FiberOrCb))" where
  "triggerEvent event c =
     (if events c AND event_bits event = 0 then Inl AssertionFailed
      else case getEventContext event c of
          None \<Rightarrow> Inl AssertionFailed
        | Some ctx \<Rightarrow>
            (case scheduler ctx of
               None \<Rightarrow> Inl NullDeref
             | Some sch \<Rightarrow>
                 Inr (setEventContext event no_EventContext
                        (c\<lparr>events := events c AND NOT (event_bits event)\<rparr>),
                      (sch, if cb ctx \<noteq> None then CbArg (cb ctx) else FiberArg (fiber ctx)))))"

text \<open>\<open>fd_ctx->triggerEvent(event)\<close> on the context in slot \<open>i\<close> of the table.\<close>

definition trigger_at :: "Event \<Rightarrow> nat \<Rightarrow> IOManager \<Rightarrow> fault + IOManager" where
  "trigger_at event i s =
     (case triggerEvent event (m_fdContexts s ! i) of
        Inl e \<Rightarrow> Inl e
      | Inr (c, call) \<Rightarrow>
          Inr (s\<lparr>m_fdContexts := (m_fdContexts s)[i := c], scheduled := scheduled s @ [call]\<rparr>))"

definition dec_pending :: "IOManager \<Rightarrow> IOManager" where
  "dec_pending s = s\<lparr>m_pendingEventCount := m_pendingEventCount s - 1\<rparr>"

text \<open>\<open>IOManager::delEvent\<close>. On a failing \<open>epoll_ctl\<close> the source executes \<open>return -1\<close> in
  a function returning \<open>bool\<close>, which is \<open>true\<close>.\<close>

definition delEvent :: "IOManager \<Rightarrow> int \<Rightarrow> Event \<Rightarrow> fault + (bool \<times> IOManager)" where
  "delEvent s fd event =
     (if \<not> int_of_size (length (m_fdContexts s)) > fd then Inr (False, s)
      else if length (m_fdContexts s) \<le> to_size_t fd then Inl OutOfRange
      else
        (let fd_ctx = m_fdContexts s ! to_size_t fd in
         if events fd_ctx AND event_bits event = 0 then Inr (False, s)
         else
           (let new_events = events fd_ctx AND NOT (event_bits event) in
            case epoll_ctl (m_pollable s) (m_epoll s)
                   (if new_events \<noteq> 0 then EPOLL_CTL_MOD else EPOLL_CTL_DEL) fd
                   (EPOLLET OR new_events) of
              None \<Rightarrow> Inr (True, s)
            | Some k \<Rightarrow>
                (case getEventContext event fd_ctx of
                   None \<Rightarrow> Inl AssertionFailed
                 | Some event_ctx \<Rightarrow>
                     Inr (True, s\<lparr>m_epoll := k,
                       m_pendingEventCount := m_pendingEventCount s - 1,
                       m_fdContexts := (m_fdContexts s)[to_size_t fd :=
                         setEventContext event no_EventContext
                           (fd_ctx\<lparr>events := new_events\<rparr>)]\<rparr>)))))"

text \<open>\<open>IOManager::cancelEvent\<close>.\<close>

definition cancelEvent :: "IOManager \<Rightarrow> int \<Rightarrow> Event \<Rightarrow> fault + (bool \<times> IOManager)" where
  "cancelEvent s fd event =
     (if \<not> int_of_size (length (m_fdContexts s)) > fd then Inr (False, s)
      else if length (m_fdContexts s) \<le> to_size_t fd then Inl OutOfRange
      else
        (let fd_ctx = m_fdContexts s ! to_size_t fd in
         if events fd_ctx AND event_bits event = 0 then Inr (False, s)
         else
           (let new_events = events fd_ctx AND NOT (event_bits event) in
            case epoll_ctl (m_pollable s) (m_epoll s)
                   (if new_events \<noteq> 0 then EPOLL_CTL_MOD else EPOLL_CTL_DEL) fd
                   (EPOLLET OR new_events) of
              None \<Rightarrow> Inr (True, s)
            | Some k \<Rightarrow>
                (case trigger_at event (to_size_t fd) (dec_pending (s\<lparr>m_epoll := k\<rparr>)) of
                   Inl e \<Rightarrow> Inl e
                 | Inr s1 \<Rightarrow> Inr (True, s1)))))"

text \<open>The pair \<open>fd_ctx->triggerEvent(event); --_m_pendingEventCount;\<close> guarded by a test of
  the event's bit in a mask, as \<open>cancelAll\<close> and \<open>idle\<close> have it for \<open>READ\<close> and \<open>WRITE\<close>.\<close>

definition fire_if :: "bool \<Rightarrow> Event \<Rightarrow> nat \<Rightarrow> IOManager \<Rightarrow> fault + IOManager" where
  "fire_if b event i s =
     (if b then (case trigger_at event i s of Inl e \<Rightarrow> Inl e | Inr s1 \<Rightarrow> Inr (dec_pending s1))
      else Inr s)"

text \<open>\<open>IOManager::cancelAll\<close>.\<close>

definition cancelAll :: "IOManager \<Rightarrow> int \<Rightarrow> fault + (bool \<times> IOManager)" where
  "cancelAll s fd =
     (if \<not> int_of_size (length (m_fdContexts s)) > fd then Inr (False, s)
      else if length (m_fdContexts s) \<le> to_size_t fd then Inl OutOfRange
      else if events (m_fdContexts s ! to_size_t fd) = 0 then Inr (False, s)
      else
        (case epoll_ctl (m_pollable s) (m_epoll s) EPOLL_CTL_DEL fd 0 of
           None \<Rightarrow> Inr (True, s)
         | Some k \<Rightarrow>
             (case fire_if (events (m_fdContexts s ! to_size_t fd) AND event_bits READ \<noteq> 0)
                     READ (to_size_t fd) (s\<lparr>m_epoll := k\<rparr>) of
                Inl e \<Rightarrow> Inl e
              | Inr s1 \<Rightarrow>
                  (case fire_if (events (m_fdContexts s1 ! to_size_t fd) AND event_bits WRITE \<noteq> 0)
                          WRITE (to_size_t fd) s1 of
                     Inl e \<Rightarrow> Inl e
                   | Inr s2 \<Rightarrow>
                       if events (m_fdContexts s2 ! to_size_t fd) \<noteq> 0 then Inl AssertionFailed
                       else Inr (True, s2)))))"

text \<open>
  The body of the loop over the ready events in \<open>IOManager::idle\<close>, for an event that is
  not the self-pipe's: \<open>i\<close> is the slot of the context that \<open>event.data.ptr\<close> points to and
  \<open>reported\<close> is \<open>event.events\<close> as \<open>epoll_wait\<close> delivered it. \<open>real_events_of\<close>
  is the computation of the local \<open>real_events\<close>, after the coercion of error and hang-up.
\<close>

definition real_events_of :: "32 word \<Rightarrow> 32 word \<Rightarrow> 32 word" where
  "real_events_of reported armed =
     (let ev = (if reported AND (EPOLLERR OR EPOLLHUP) \<noteq> 0
                then reported OR ((EPOLLIN OR EPOLLOUT) AND armed) else reported)
      in (if ev AND EPOLLIN \<noteq> 0 then event_bits READ else 0)
         OR (if ev AND EPOLLOUT \<noteq> 0 then event_bits WRITE else 0))"

definition idle_event :: "IOManager \<Rightarrow> nat \<Rightarrow> 32 word \<Rightarrow> fault + IOManager" where
  "idle_event s i reported =
     (if length (m_fdContexts s) \<le> i then Inl NullDeref
      else
        (let fd_ctx = m_fdContexts s ! i;
             real_events = real_events_of reported (events fd_ctx)
         in if events fd_ctx AND real_events = 0 then Inr s
            else
              (let left_events = events fd_ctx AND NOT real_events in
               case epoll_ctl (m_pollable s) (m_epoll s)
                      (if left_events \<noteq> 0 then EPOLL_CTL_MOD else EPOLL_CTL_DEL) (ctx_fd fd_ctx)
                      (EPOLLET OR left_events) of
                 None \<Rightarrow> Inr s
               | Some k \<Rightarrow>
                   (case fire_if (real_events AND event_bits READ \<noteq> 0) READ i (s\<lparr>m_epoll := k\<rparr>) of
                      Inl e \<Rightarrow> Inl e
                    | Inr s1 \<Rightarrow> fire_if (real_events AND event_bits WRITE \<noteq> 0) WRITE i s1))))"

text \<open>The manager as its constructor leaves it: the read end of the self-pipe registered,
  32 contexts, nothing pending.\<close>

definition ioManager0 :: "(int \<Rightarrow> bool) \<Rightarrow> int \<Rightarrow> IOManager" where
  "ioManager0 pollable tickle_fd =
     \<lparr>m_pollable = pollable, m_epoll = [tickle_fd \<mapsto> EPOLLIN OR EPOLLET],
      m_pendingEventCount = 0, m_fdContexts = contextResize 32 [], scheduled = []\<rparr>"

text \<open>The operations as steps, and runs of them; a fault ends a run.\<close>

datatype io_op =
    is_AddEvent: AddEvent int Event callback thread_env
  | DelEvent int Event
  | CancelEvent int Event
  | CancelAll int
  | IdleEvent nat "32 word"

fun step :: "io_op \<Rightarrow> IOManager \<Rightarrow> fault + IOManager" where
  "step (AddEvent fd e f env) s = map_sum id snd (addEvent s fd e f env)"
| "step (DelEvent fd e) s = map_sum id snd (delEvent s fd e)"
| "step (CancelEvent fd e) s = map_sum id snd (cancelEvent s fd e)"
| "step (CancelAll fd) s = map_sum id snd (cancelAll s fd)"
| "step (IdleEvent i ev) s = idle_event s i ev"

fun run :: "io_op list \<Rightarrow> IOManager \<Rightarrow> fault + IOManager" where
  "run [] s = Inr s"
| "run (op # ops) s = (case step op s of Inl e \<Rightarrow> Inl e | Inr s1 \<Rightarrow> run ops s1)"

text \<open>The number of armed directions of a mask, and their total over the table.\<close>

definition armed_count :: "32 word \<Rightarrow> nat" where
  "armed_count m = (if m AND event_bits READ \<noteq> 0 then 1 else 0)
                 + (if m AND event_bits WRITE \<noteq> 0 then 1 else 0)"

definition armed_total :: "FdContext list \<Rightarrow> nat" where
  "armed_total tbl = sum_list (map (\<lambda>c. armed_count (events c)) tbl)"

section \<open>Timers (timer.h, timer.cc)\<close>

text \<open>
  A time point of \<open>std::chrono::system_clock\<close> is its count of clock ticks, an integer; a
  tick is a nanosecond, so a millisecond is \<open>1000000\<close> ticks. The period \<open>_m_ms\<close> is a
  \<open>uint64_t\<close>; \<open>std::chrono::milliseconds(_m_ms)\<close> reads it as a signed 64-bit count.
  Sums and differences of time points are taken in the integers: the overflow of the
  64-bit tick count (undefined behaviour, for periods of centuries) is outside the model.
\<close>

definition ticks_per_ms :: int where
  "ticks_per_ms = 1000000"

definition milliseconds :: "64 word \<Rightarrow> int" where
  "milliseconds n = sint n * ticks_per_ms"

record Timer =
  m_recurring :: bool
  m_ms :: "64 word"
  m_next :: int
  m_cb :: callback

text \<open>
  \<open>Timer\<close> objects are shared between the manager's set and the handles that callers
  hold, so they live in a store indexed by address; \<open>new_timer\<close> is the next address that
  \<open>new Timer\<close> returns. \<open>m_timers\<close> is the \<open>std::set\<close> of the manager, as the list of its
  elements in the order of iteration. \<open>front_calls\<close> counts the calls of the virtual
  \<open>onTimerInsertedAtFront()\<close>.
\<close>

record TimerManager =
  store :: "nat \<Rightarrow> Timer"
  new_timer :: nat
  m_timers :: "nat list"
  m_tickled :: bool
  m_previouseTimer :: int
  front_calls :: nat

definition deadline :: "TimerManager \<Rightarrow> nat \<Rightarrow> int" where
  "deadline s t = m_next (store s t)"

text \<open>
  \<open>Timer::Comparator\<close> compares the deadlines \<open>_m_next\<close> and nothing else, so two timers
  with the same deadline are equivalent keys for the set. The operations of
  \<open>std::set\<close> with this comparator, \<open>d\<close> giving the deadline of a timer:
  \<open>insert\<close> leaves the set as it is when it holds an equivalent element, and the iterator
  it returns points to the element inserted or to the equivalent one (\<open>insert_pos\<close> is
  its position); \<open>find\<close> returns an equivalent element, if there is one.
\<close>

fun set_insert :: "(nat \<Rightarrow> int) \<Rightarrow> nat \<Rightarrow> nat list \<Rightarrow> nat list" where
  "set_insert d t [] = [t]"
| "set_insert d t (u # us) =
     (if d t < d u then t # u # us
      else if d u < d t then u # set_insert d t us
      else u # us)"

fun insert_pos :: "(nat \<Rightarrow> int) \<Rightarrow> nat \<Rightarrow> nat list \<Rightarrow> nat" where
  "insert_pos d t [] = 0"
| "insert_pos d t (u # us) =
     (if d t < d u then 0
      else if d u < d t then Suc (insert_pos d t us)
      else 0)"

fun set_find :: "(nat \<Rightarrow> int) \<Rightarrow> nat \<Rightarrow> nat list \<Rightarrow> nat option" where
  "set_find d t [] = None"
| "set_find d t (u # us) =
     (if \<not> d t < d u \<and> \<not> d u < d t then Some u else set_find d t us)"

text \<open>\<open>TimerManager::addTimer(std::shared_ptr<Timer>)\<close>.\<close>

definition addTimer_ptr :: "TimerManager \<Rightarrow> nat \<Rightarrow> TimerManager" where
  "addTimer_ptr s t =
     (let at_front = (insert_pos (deadline s) t (m_timers s) = 0 \<and> \<not> m_tickled s)
      in s\<lparr>m_timers := set_insert (deadline s) t (m_timers s),
           m_tickled := (if at_front then True else m_tickled s),
           front_calls := (if at_front then front_calls s + 1 else front_calls s)\<rparr>)"

text \<open>\<open>TimerManager::addTimer(ms, cb, recurring)\<close>, with the reading \<open>now\<close> of the clock that
  the constructor of \<open>Timer\<close> takes. The result is the handle returned and the new
  state.\<close>

definition addTimer :: "TimerManager \<Rightarrow> 64 word \<Rightarrow> callback \<Rightarrow> bool \<Rightarrow> int \<Rightarrow> nat \<times> TimerManager" where
  "addTimer s ms f recurring now =
     (let t = new_timer s;
          s1 = s\<lparr>store := (store s)(t := \<lparr>m_recurring = recurring, m_ms = ms,
                                          m_next = now + milliseconds ms, m_cb = f\<rparr>),
                 new_timer := t + 1\<rparr>
      in (t, addTimer_ptr s1 t))"

text \<open>\<open>Timer::cancel\<close>.\<close>

definition cancel :: "TimerManager \<Rightarrow> nat \<Rightarrow> bool \<times> TimerManager" where
  "cancel s t =
     (if m_cb (store s t) = None then (False, s)
      else
        (let s1 = s\<lparr>store := (store s)(t := (store s t)\<lparr>m_cb := None\<rparr>)\<rparr> in
         case set_find (deadline s1) t (m_timers s1) of
           None \<Rightarrow> (True, s1)
         | Some u \<Rightarrow> (True, s1\<lparr>m_timers := remove1 u (m_timers s1)\<rparr>)))"

text \<open>\<open>Timer::refresh\<close>, with the clock reading \<open>now\<close>.\<close>

definition refresh :: "TimerManager \<Rightarrow> nat \<Rightarrow> int \<Rightarrow> bool \<times> TimerManager" where
  "refresh s t now =
     (if m_cb (store s t) = None then (False, s)
      else
        (case set_find (deadline s) t (m_timers s) of
           None \<Rightarrow> (False, s)
         | Some u \<Rightarrow>
             (let s1 = s\<lparr>m_timers := remove1 u (m_timers s)\<rparr>;
                  s2 = s1\<lparr>store := (store s1)(t := (store s1 t)
                              \<lparr>m_next := now + milliseconds (m_ms (store s1 t))\<rparr>)\<rparr>
              in (True, s2\<lparr>m_timers := set_insert (deadline s2) t (m_timers s2)\<rparr>))))"

text \<open>\<open>Timer::reset\<close>, with the clock reading \<open>now\<close> (read only when \<open>from_now\<close> holds).\<close>

definition reset :: "TimerManager \<Rightarrow> nat \<Rightarrow> 64 word \<Rightarrow> bool \<Rightarrow> int \<Rightarrow> bool \<times> TimerManager" where
  "reset s t ms from_now now =
     (if ms = m_ms (store s t) \<and> \<not> from_now then (True, s)
      else if m_cb (store s t) = None then (False, s)
      else
        (case set_find (deadline s) t (m_timers s) of
           None \<Rightarrow> (False, s)
         | Some u \<Rightarrow>
             (let s1 = s\<lparr>m_timers := remove1 u (m_timers s)\<rparr>;
                  start = (if from_now then now
                           else m_next (store s1 t) - milliseconds (m_ms (store s1 t)));
                  s2 = s1\<lparr>store := (store s1)(t := (store s1 t)
                              \<lparr>m_ms := ms, m_next := start + milliseconds ms\<rparr>)\<rparr>
              in (True, addTimer_ptr s2 t))))"

text \<open>\<open>TimerManager::getNextTimer\<close>, with the clock reading \<open>now\<close>: the value returned
  (\<open>~0ull\<close> is \<open>- 1\<close>) and the new state.\<close>

definition getNextTimer :: "TimerManager \<Rightarrow> int \<Rightarrow> 64 word \<times> TimerManager" where
  "getNextTimer s now =
     (let s1 = s\<lparr>m_tickled := False\<rparr> in
      case m_timers s of
        [] \<Rightarrow> (- 1, s1)
      | t # ts \<Rightarrow>
          if now \<ge> deadline s t then (0, s1)
          else (word_of_int ((deadline s t - now) div ticks_per_ms), s1))"

text \<open>\<open>TimerManager::detectClockRollover\<close>, with its own clock reading.\<close>

definition detectClockRollover :: "TimerManager \<Rightarrow> int \<Rightarrow> bool \<times> TimerManager" where
  "detectClockRollover s now =
     (now < m_previouseTimer s - milliseconds (60 * 60 * 1000), s\<lparr>m_previouseTimer := now\<rparr>)"

text \<open>
  The \<open>while\<close> loop of \<open>TimerManager::listExpiredCb\<close>. A recurring timer is put back into
  the set inside the loop, so the loop need not end; the model counts iterations down from
  \<open>fuel\<close>, and \<open>None\<close> means that the loop was still running when the fuel ran out.
\<close>

fun expire_loop ::
  "nat \<Rightarrow> bool \<Rightarrow> int \<Rightarrow> TimerManager \<Rightarrow> callback list \<Rightarrow> (TimerManager \<times> callback list) option"
where
  "expire_loop 0 rollover now s cbs = None"
| "expire_loop (Suc fuel) rollover now s cbs =
     (case m_timers s of
        [] \<Rightarrow> Some (s, cbs)
      | t # ts \<Rightarrow>
          if rollover \<or> deadline s t \<le> now then
            (let temp = store s t;
                 s1 = s\<lparr>m_timers := ts\<rparr>;
                 cbs1 = cbs @ [m_cb temp]
             in if m_recurring temp then
                  (let s2 = s1\<lparr>store := (store s1)(t := temp
                                  \<lparr>m_next := now + milliseconds (m_ms temp)\<rparr>)\<rparr>
                   in expire_loop fuel rollover now
                        (s2\<lparr>m_timers := set_insert (deadline s2) t (m_timers s2)\<rparr>) cbs1)
                else
                  expire_loop fuel rollover now
                    (s1\<lparr>store := (store s1)(t := temp\<lparr>m_cb := None\<rparr>)\<rparr>) cbs1)
          else Some (s, cbs))"

text \<open>\<open>TimerManager::listExpiredCb\<close>: \<open>now\<close> is the clock reading at its start, \<open>now2\<close> the
  one that \<open>detectClockRollover\<close> takes.\<close>

definition listExpiredCb ::
  "nat \<Rightarrow> TimerManager \<Rightarrow> int \<Rightarrow> int \<Rightarrow> callback list \<Rightarrow> (TimerManager \<times> callback list) option"
where
  "listExpiredCb fuel s now now2 cbs =
     (case detectClockRollover s now2 of
        (rollover, s1) \<Rightarrow> expire_loop fuel rollover now s1 cbs)"

text \<open>\<open>TimerManager::hasTimer\<close>.\<close>

definition hasTimer :: "TimerManager \<Rightarrow> bool" where
  "hasTimer s = (m_timers s \<noteq> [])"

text \<open>The manager as its constructor leaves it at clock reading \<open>now\<close>.\<close>

definition timerManager0 :: "int \<Rightarrow> TimerManager" where
  "timerManager0 now =
     \<lparr>store = (\<lambda>_. \<lparr>m_recurring = False, m_ms = 0, m_next = 0, m_cb = None\<rparr>),
      new_timer = 0, m_timers = [], m_tickled = False, m_previouseTimer = now,
      front_calls = 0\<rparr>"

section \<open>Reachable states, invariants and the inputs of the examples\<close>

text \<open>The operations on the registry and on the contexts it holds, as steps: \<open>get\<close> and
  \<open>del\<close>, and the writes to the context registered for a descriptor (through the pointer
  that \<open>get\<close> returned). A fault ends a run.\<close>

datatype reg_op =
    RegGet int bool "bool option"
  | RegDel int
  | CtxInit int "bool option"
  | CtxSetTimeout int int "64 word"
  | CtxSetUserNonblock int bool
  | CtxSetSysNonblock int bool

definition on_ctx :: "(FdCtx \<Rightarrow> FdCtx) \<Rightarrow> FdCtx option list \<Rightarrow> int \<Rightarrow> FdCtx option list" where
  "on_ctx f datas fd =
     (case lookup datas fd of None \<Rightarrow> datas | Some c \<Rightarrow> datas[to_size_t fd := Some (f c)])"

fun reg_step :: "reg_op \<Rightarrow> FdCtx option list \<Rightarrow> fault + FdCtx option list" where
  "reg_step (RegGet fd auto_create probe) datas = map_sum id snd (get datas fd auto_create probe)"
| "reg_step (RegDel fd) datas = Inr (del datas fd)"
| "reg_step (CtxInit fd probe) datas = Inr (on_ctx (\<lambda>c. init c probe) datas fd)"
| "reg_step (CtxSetTimeout fd type v) datas = Inr (on_ctx (\<lambda>c. setTimeout c type v) datas fd)"
| "reg_step (CtxSetUserNonblock fd v) datas = Inr (on_ctx (\<lambda>c. setUserNonblock c v) datas fd)"
| "reg_step (CtxSetSysNonblock fd v) datas = Inr (on_ctx (\<lambda>c. setSysNonblock c v) datas fd)"

fun reg_run :: "reg_op list \<Rightarrow> FdCtx option list \<Rightarrow> fault + FdCtx option list" where
  "reg_run [] datas = Inr datas"
| "reg_run (op # ops) datas =
     (case reg_step op datas of Inl e \<Rightarrow> Inl e | Inr datas1 \<Rightarrow> reg_run ops datas1)"

text \<open>No context of the registry is marked closed.\<close>

definition never_closed :: "FdCtx option list \<Rightarrow> bool" where
  "never_closed datas = (\<forall>c. Some c \<in> set datas \<longrightarrow> \<not> m_isClosed c)"

text \<open>The invariant of the pending event counter. The bound on the table keeps the cast
  \<open>(int)_m_fdContexts.size()\<close> exact; it holds as long as \<open>addEvent\<close> is called
  with descriptors below \<open>2^30\<close> (\<open>op_fd_ok\<close>).\<close>

definition pending_inv :: "IOManager \<Rightarrow> bool" where
  "pending_inv s =
     (unat (m_pendingEventCount s) = armed_total (m_fdContexts s)
      \<and> length (m_fdContexts s) < 2 ^ 31)"

fun op_fd_ok :: "io_op \<Rightarrow> bool" where
  "op_fd_ok (AddEvent fd e f env) = (fd < 2 ^ 30)"
| "op_fd_ok _ = True"

text \<open>A caller that runs as fiber 1 of scheduler 0, and a run of the manager: both
  directions of descriptor 5 are armed, descriptor 40 (beyond the 32 contexts) is armed for
  reading, descriptor 5 becomes readable, and the event on descriptor 40 is deleted.\<close>

definition env0 :: thread_env where
  "env0 = \<lparr>t_scheduler = Some 0, t_fiber = 1, t_fiber_state = RUNNING\<rparr>"

definition ops0 :: "io_op list" where
  "ops0 = [AddEvent 5 READ None env0, AddEvent 5 WRITE (Some 2) env0,
           AddEvent 40 READ None env0, IdleEvent 5 EPOLLIN, DelEvent 40 READ]"

text \<open>The armed mask of a descriptor (empty for a descriptor beyond the table), and the
  invariant of the specification that the kernel registration of a descriptor mirrors its
  armed mask.\<close>

definition armed_mask :: "IOManager \<Rightarrow> int \<Rightarrow> 32 word" where
  "armed_mask s fd =
     (if 0 \<le> fd \<and> nat fd < length (m_fdContexts s) then events (m_fdContexts s ! nat fd) else 0)"

definition kernel_mirrors :: "IOManager \<Rightarrow> int \<Rightarrow> bool" where
  "kernel_mirrors s fd =
     (m_epoll s fd = (if armed_mask s fd = 0 then None else Some (EPOLLET OR armed_mask s fd)))"

text \<open>The invariant of the timer set: it is strictly ordered by deadline, and every timer
  in it has been allocated.\<close>

definition timers_sorted :: "TimerManager \<Rightarrow> bool" where
  "timers_sorted s = sorted_wrt (\<lambda>a b. deadline s a < deadline s b) (m_timers s)"

definition timers_wf :: "TimerManager \<Rightarrow> bool" where
  "timers_wf s = (timers_sorted s \<and> (\<forall>t\<in>set (m_timers s). t < new_timer s))"

text \<open>The operations of the manager and of its timer handles as steps. A handle is an
  address that \<open>addTimer\<close> has returned; a step on any other address is no step of the
  program. A drain whose loop does not end within its fuel ends the run.\<close>

datatype timer_op =
    AddTimer "64 word" callback bool int
  | Cancel nat
  | Refresh nat int
  | Reset nat "64 word" bool int
  | GetNextTimer int
  | ListExpiredCb nat int int

fun timer_step :: "timer_op \<Rightarrow> TimerManager \<Rightarrow> TimerManager option" where
  "timer_step (AddTimer ms f r now) s = Some (snd (addTimer s ms f r now))"
| "timer_step (Cancel t) s = (if t < new_timer s then Some (snd (cancel s t)) else None)"
| "timer_step (Refresh t now) s = (if t < new_timer s then Some (snd (refresh s t now)) else None)"
| "timer_step (Reset t ms from_now now) s =
     (if t < new_timer s then Some (snd (reset s t ms from_now now)) else None)"
| "timer_step (GetNextTimer now) s = Some (snd (getNextTimer s now))"
| "timer_step (ListExpiredCb fuel now now2) s = map_option fst (listExpiredCb fuel s now now2 [])"

fun timer_run :: "timer_op list \<Rightarrow> TimerManager \<Rightarrow> TimerManager option" where
  "timer_run [] s = Some s"
| "timer_run (op # ops) s = (case timer_step op s of None \<Rightarrow> None | Some s1 \<Rightarrow> timer_run ops s1)"

text \<open>Two timers of 10 ms, added at the same clock reading.\<close>

definition two_equal_timers :: TimerManager where
  "two_equal_timers = snd (addTimer (snd (addTimer (timerManager0 0) 10 (Some 1) False 0)) 10 (Some 2) False 0)"

text \<open>Two timers, due 5 s and 9 s after a clock reading of 4000 s.\<close>

definition far_timers :: TimerManager where
  "far_timers =
     snd (addTimer (snd (addTimer (timerManager0 4000000000000) 5000 (Some 1) False 4000000000000))
            9000 (Some 2) False 4000000000000)"

text \<open>A manager constructed at a clock reading of 4000 s, with a recurring timer of 5 s.\<close>

definition rec_timer :: TimerManager where
  "rec_timer = snd (addTimer (timerManager0 4000000000000) 5000 (Some 1) True 4000000000000)"

text \<open>A manager constructed at a clock reading of exactly one hour, with a timer of 5 s.\<close>

definition hour_timer :: TimerManager where
  "hour_timer = snd (addTimer (timerManager0 3600000000000) 5000 (Some 1) False 3600000000000)"

text \<open>A manager constructed at clock reading 0, with a timer of 5 ms.\<close>

definition one_timer :: TimerManager where
  "one_timer = snd (addTimer (timerManager0 0) 5 (Some 1) False 0)"

section \<open>Submission after stop\<close>

lemma tickle_keeps [simp]:
  "m_tasks (tickle s) = m_tasks s" "cerr (tickle s) = cerr s"
  "m_stopping (tickle s) = m_stopping s"
  by (simp_all add: tickle_def)

lemma tickle_pow_keeps [simp]:
  "m_tasks ((tickle ^^ n) s) = m_tasks s" "cerr ((tickle ^^ n) s) = cerr s"
  "m_stopping ((tickle ^^ n) s) = m_stopping s"
  by (induction n) simp_all





section \<open>The template and closed contexts\<close>

lemma lookup_in_range:
  "0 \<le> fd \<Longrightarrow> nat fd < length datas \<Longrightarrow> length datas < 2 ^ 64 \<Longrightarrow> lookup datas fd = datas ! nat fd"
  by (simp add: lookup_def get_def to_size_t_def)

text \<open>The guard of \<open>do_io\<close> for a context marked closed: the original function is not called,
  \<open>errno\<close> is set to \<open>EBADF\<close> and \<open>-1\<close> is returned.\<close>

lemma do_io_closed_guard:
  assumes "lookup datas fd = Some ctx" and "m_isClosed ctx"
  shows "do_io True datas fd timeout_so script =
           Some \<lparr>ret = - 1, errno_set = Some EBADF, calls = 0\<rparr>"
  using assms by (simp add: do_io_def)

text \<open>No run of the registry's operations from the constructor's state marks a context
  closed, so that guard is never taken on a registry that \<open>do_io\<close> can meet.\<close>

lemma lookup_Some_in_set:
  assumes "lookup datas fd = Some c"
  shows "Some c \<in> set datas"
proof -
  from assms have "to_size_t fd < length datas" and "datas ! to_size_t fd = Some c"
    by (auto simp: lookup_def get_def split: if_splits)
  then show ?thesis by (metis nth_mem)
qed

lemma never_closed_update:
  "never_closed datas \<Longrightarrow> \<forall>c. x = Some c \<longrightarrow> \<not> m_isClosed c \<Longrightarrow> never_closed (datas[i := x])"
  unfolding never_closed_def using set_update_subset_insert [of datas i x] by blast

lemma never_closed_resize: "never_closed datas \<Longrightarrow> never_closed (resize n None datas)"
  unfolding never_closed_def resize_def using set_take_subset [of n datas] by auto

lemma never_closed_on_ctx:
  assumes "never_closed datas" and "\<And>c. m_isClosed (f c) = m_isClosed c"
  shows "never_closed (on_ctx f datas fd)"
proof (cases "lookup datas fd")
  case None
  with assms(1) show ?thesis by (simp add: on_ctx_def)
next
  case (Some c)
  from lookup_Some_in_set [OF Some] assms(1) have "\<not> m_isClosed c"
    by (simp add: never_closed_def)
  with assms(2) have "\<not> m_isClosed (f c)" by simp
  with assms(1) have "never_closed (datas[to_size_t fd := Some (f c)])"
    by (intro never_closed_update) simp_all
  with Some show ?thesis by (simp add: on_ctx_def)
qed

lemma never_closed_get:
  assumes "get datas fd auto_create probe = Inr (c, datas1)" and "never_closed datas"
  shows "never_closed datas1"
proof (cases "datas1 = datas")
  case True
  with assms(2) show ?thesis by simp
next
  case False
  let ?x = "Some (new_FdCtx fd probe)"
  have new: "\<not> m_isClosed (new_FdCtx fd probe)" by (simp add: new_FdCtx_def)
  from False assms(1) have
    "datas1 = datas[to_size_t fd := ?x]
     \<or> (\<exists>n. datas1 = (resize n None datas)[to_size_t fd := ?x])"
    by (auto simp: get_def split: if_splits option.splits)
  then show ?thesis
  proof
    assume "datas1 = datas[to_size_t fd := ?x]"
    moreover from assms(2) new have "never_closed (datas[to_size_t fd := ?x])"
      by (intro never_closed_update) simp_all
    ultimately show ?thesis by simp
  next
    assume "\<exists>n. datas1 = (resize n None datas)[to_size_t fd := ?x]"
    then obtain n where "datas1 = (resize n None datas)[to_size_t fd := ?x]" ..
    moreover from never_closed_resize [OF assms(2), of n] new
    have "never_closed ((resize n None datas)[to_size_t fd := ?x])"
      by (intro never_closed_update) simp_all
    ultimately show ?thesis by simp
  qed
qed

lemma never_closed_step:
  assumes "reg_step op datas = Inr datas1" and "never_closed datas"
  shows "never_closed datas1"
proof (cases op)
  case (RegGet fd auto_create probe)
  with assms(1) obtain c where "get datas fd auto_create probe = Inr (c, datas1)"
    by (cases "get datas fd auto_create probe") auto
  from never_closed_get [OF this assms(2)] show ?thesis .
next
  case (RegDel fd)
  from assms(2) have "never_closed (datas[to_size_t fd := None])"
    by (intro never_closed_update) simp_all
  with RegDel assms show ?thesis by (auto simp: del_def)
next
  case (CtxInit fd probe)
  with assms never_closed_on_ctx [of datas "\<lambda>c. init c probe" fd] show ?thesis
    by (simp add: init_def)
next
  case (CtxSetTimeout fd type v)
  with assms never_closed_on_ctx [of datas "\<lambda>c. setTimeout c type v" fd] show ?thesis
    by (simp add: setTimeout_def)
next
  case (CtxSetUserNonblock fd v)
  with assms never_closed_on_ctx [of datas "\<lambda>c. setUserNonblock c v" fd] show ?thesis
    by (simp add: setUserNonblock_def)
next
  case (CtxSetSysNonblock fd v)
  with assms never_closed_on_ctx [of datas "\<lambda>c. setSysNonblock c v" fd] show ?thesis
    by (simp add: setSysNonblock_def)
qed

lemma registry_never_closed:
  "reg_run ops fdManager0 = Inr datas \<Longrightarrow> lookup datas fd = Some ctx \<Longrightarrow> \<not> m_isClosed ctx"
proof -
  have run: "reg_run ops d0 = Inr d1 \<Longrightarrow> never_closed d0 \<Longrightarrow> never_closed d1" for d0 d1
  proof (induction ops arbitrary: d0)
    case Nil
    then show ?case by simp
  next
    case (Cons op ops)
    from Cons.prems(1) obtain d2 where st: "reg_step op d0 = Inr d2" and r: "reg_run ops d2 = Inr d1"
      by (auto split: sum.splits)
    from Cons.IH [OF r never_closed_step [OF st Cons.prems(2)]] show ?case .
  qed
  have init: "never_closed fdManager0"
    by (auto simp: never_closed_def fdManager0_def resize_def)
  assume "reg_run ops fdManager0 = Inr datas" and l: "lookup datas fd = Some ctx"
  from run [OF this(1) init] lookup_Some_in_set [OF l] show ?thesis
    by (simp add: never_closed_def)
qed

text \<open>So on such a registry, with the hook enabled, \<open>do_io\<close> calls the original function
  directly for an unknown descriptor, for a descriptor that is not a socket and for one in
  user-requested non-blocking mode, and goes to its retry loop otherwise.\<close>

lemma do_io_on_registry:
  assumes "reg_run ops fdManager0 = Inr datas"
  shows "do_io True datas fd timeout_so script =
           (case lookup datas fd of
              None \<Rightarrow> call_original script
            | Some ctx \<Rightarrow>
                if \<not> m_isSocket ctx \<or> m_userNonblock ctx then call_original script
                else retry (getTimeout ctx timeout_so) script 0)"
proof (cases "lookup datas fd")
  case None
  then show ?thesis by (simp add: do_io_def)
next
  case (Some ctx)
  from registry_never_closed [OF assms Some] Some show ?thesis by (simp add: do_io_def)
qed

section \<open>The pending event counter\<close>

lemma and1_iff: "((m::32 word) AND 1 = 0) = (\<not> bit m 0)"
  by (simp add: and_one_eq bit_0 mod_2_eq_odd)

lemma and4_iff: "((m::32 word) AND 4 = 0) = (\<not> bit m 2)"
  using and_exp_eq_0_iff_not_bit [of m 2] by simp

lemma bit4: "bit (4::32 word) n = (n = 2)"
  using bit_exp_iff [where ?'a = "32 word" and m = 2 and n = n] by auto

lemma armed_count_bits: "armed_count m = (if bit m 0 then 1 else 0) + (if bit m 2 then 1 else 0)"
  by (simp add: armed_count_def and1_iff and4_iff)

lemma armed_count_arm:
  "e \<noteq> NONE \<Longrightarrow> m AND event_bits e = 0 \<Longrightarrow> armed_count (m OR event_bits e) = armed_count m + 1"
  by (cases e) (auto simp: armed_count_bits and1_iff and4_iff bit_or_iff bit4 bit_1_iff)

lemma armed_count_clear:
  "m AND event_bits e \<noteq> 0 \<Longrightarrow> armed_count (m AND NOT (event_bits e)) + 1 = armed_count m"
  by (cases e) (auto simp: armed_count_bits and1_iff and4_iff bit_and_iff bit_not_iff bit4 bit_1_iff)

lemma armed_count_le: "armed_count m \<le> 2"
  by (simp add: armed_count_def)

lemma armed_total_le: "armed_total tbl \<le> 2 * length tbl"
proof (induction tbl)
  case Nil
  show ?case by (simp add: armed_total_def)
next
  case (Cons c tbl)
  have "armed_total (c # tbl) = armed_count (events c) + armed_total tbl"
    by (simp add: armed_total_def)
  with Cons armed_count_le [of "events c"] show ?case by simp
qed

lemma armed_total_update:
  "i < length tbl \<Longrightarrow>
     armed_total (tbl[i := c]) + armed_count (events (tbl ! i)) =
     armed_total tbl + armed_count (events c)"
proof (induction tbl arbitrary: i)
  case Nil
  then show ?case by simp
next
  case (Cons a tbl)
  show ?case
  proof (cases i)
    case 0
    then show ?thesis by (simp add: armed_total_def)
  next
    case (Suc j)
    with Cons.prems have "j < length tbl" by simp
    from Cons.IH [OF this] Suc show ?thesis by (simp add: armed_total_def)
  qed
qed

lemma armed_total_fresh:
  "armed_total (map (\<lambda>i. new_FdContext (int i)) xs) = 0"
  by (induction xs) (simp_all add: armed_total_def new_FdContext_def armed_count_def)

lemma armed_total_append: "armed_total (xs @ ys) = armed_total xs + armed_total ys"
  by (simp add: armed_total_def)

lemma armed_total_contextResize:
  "length tbl \<le> n \<Longrightarrow> armed_total (contextResize n tbl) = armed_total tbl"
  by (simp add: contextResize_def armed_total_append armed_total_fresh)

lemma length_contextResize: "length tbl \<le> n \<Longrightarrow> length (contextResize n tbl) = n"
  by (simp add: contextResize_def)

lemma int_of_size_small: "n < 2 ^ 31 \<Longrightarrow> int_of_size n = int n"
  by (simp add: int_of_size_def Let_def)

lemma to_size_t_nonneg: "0 \<le> fd \<Longrightarrow> fd < 2 ^ 64 \<Longrightarrow> to_size_t fd = nat fd"
  by (simp add: to_size_t_def)

lemma events_setEventContext [simp]: "events (setEventContext e x c) = events c"
  by (cases e) simp_all

lemma pending_inv_epoll [simp]: "pending_inv (s\<lparr>m_epoll := k\<rparr>) = pending_inv s"
  by (simp add: pending_inv_def)

lemma pending_inv_init: "pending_inv (ioManager0 p t)"
proof -
  have "armed_total (contextResize 32 []) = armed_total []"
    by (rule armed_total_contextResize) simp
  then show ?thesis
    by (simp add: pending_inv_def ioManager0_def length_contextResize armed_total_def)
qed

lemma inc_pending:
  assumes "pending_inv s"
  shows "unat (m_pendingEventCount s + 1) = armed_total (m_fdContexts s) + 1"
proof -
  have "armed_total (m_fdContexts s) \<le> 2 * length (m_fdContexts s)"
    by (rule armed_total_le)
  with assms have "unat (m_pendingEventCount s) + 1 < 2 ^ 64"
    by (simp add: pending_inv_def)
  then have "unat (m_pendingEventCount s + 1) = unat (m_pendingEventCount s) + 1"
    by (simp add: unat_word_ariths)
  with assms show ?thesis by (simp add: pending_inv_def)
qed

lemma dec_pending_unat:
  assumes "unat (p :: 64 word) = n + 1"
  shows "unat (p - 1) = n"
proof -
  from assms have "p \<noteq> 0" by auto
  then have "unat (p - 1) = unat p - 1" by (rule unat_minus_one)
  with assms show ?thesis by simp
qed

lemma trigger_at_effect:
  assumes "trigger_at e i s = Inr s1" and "i < length (m_fdContexts s)"
  shows "armed_total (m_fdContexts s1) + 1 = armed_total (m_fdContexts s)
       \<and> length (m_fdContexts s1) = length (m_fdContexts s)
       \<and> m_pendingEventCount s1 = m_pendingEventCount s
       \<and> m_epoll s1 = m_epoll s \<and> m_pollable s1 = m_pollable s"
proof -
  from assms(1) obtain c call where
    t: "triggerEvent e (m_fdContexts s ! i) = Inr (c, call)"
    and s1: "s1 = s\<lparr>m_fdContexts := (m_fdContexts s)[i := c], scheduled := scheduled s @ [call]\<rparr>"
    by (auto simp: trigger_at_def split: sum.splits)
  from t have armed: "events (m_fdContexts s ! i) AND event_bits e \<noteq> 0"
    and c: "events c = events (m_fdContexts s ! i) AND NOT (event_bits e)"
    by (auto simp: triggerEvent_def split: if_splits option.splits)
  from armed_total_update [OF assms(2), of c] armed_count_clear [OF armed] c s1
  show ?thesis by simp
qed

lemma fire_if_inv:
  assumes "fire_if b e i s = Inr s1" and "i < length (m_fdContexts s)" and "pending_inv s"
  shows "pending_inv s1 \<and> length (m_fdContexts s1) = length (m_fdContexts s)
       \<and> armed_total (m_fdContexts s1) \<le> armed_total (m_fdContexts s)"
proof (cases b)
  case False
  with assms show ?thesis by (simp add: fire_if_def)
next
  case True
  with assms(1) obtain s2 where t: "trigger_at e i s = Inr s2" and s1: "s1 = dec_pending s2"
    by (auto simp: fire_if_def split: sum.splits)
  from trigger_at_effect [OF t assms(2)] assms(3)
  have "unat (m_pendingEventCount s2) = armed_total (m_fdContexts s2) + 1"
    and len: "length (m_fdContexts s2) = length (m_fdContexts s)"
    and le: "armed_total (m_fdContexts s2) \<le> armed_total (m_fdContexts s)"
    by (simp_all add: pending_inv_def)
  from dec_pending_unat [OF this(1)] len le assms(3) s1 show ?thesis
    by (simp add: pending_inv_def dec_pending_def)
qed

lemma addEvent_inv:
  assumes "addEvent s fd e f env = Inr (r, s1)" and "pending_inv s" and "fd < 2 ^ 30"
  shows "pending_inv s1"
proof -
  let ?tbl0 = "m_fdContexts s"
  from assms(2) have len0: "length ?tbl0 < 2 ^ 31" by (simp add: pending_inv_def)
  obtain tbl where tbl: "(if int_of_size (length ?tbl0) > fd then Some ?tbl0
            else map_option (\<lambda>n. contextResize n ?tbl0) (grow_size fd)) = Some tbl"
    using assms(1) by (auto simp: addEvent_def split: option.splits)
  have tbl_ok: "armed_total tbl = armed_total ?tbl0 \<and> length tbl < 2 ^ 31"
  proof (cases "int_of_size (length ?tbl0) > fd")
    case True
    with tbl len0 show ?thesis by simp
  next
    case False
    with len0 have fd: "int (length ?tbl0) \<le> fd" by (simp add: int_of_size_small)
    then have "0 \<le> fd" by simp
    with tbl False have t: "tbl = contextResize (nat ((3 * fd) div 2)) ?tbl0"
      by (auto simp: grow_size_def)
    from fd have le: "length ?tbl0 \<le> nat ((3 * fd) div 2)" by linarith
    from assms(3) have "nat ((3 * fd) div 2) < 2 ^ 31" by simp
    with t le show ?thesis
      by (simp add: armed_total_contextResize length_contextResize)
  qed
  let ?s1 = "s\<lparr>m_fdContexts := tbl\<rparr>"
  from tbl_ok assms(2) have inv1: "pending_inv ?s1" by (simp add: pending_inv_def)
  from assms(1) tbl have idx: "to_size_t fd < length tbl"
    by (auto simp: addEvent_def split: if_splits)
  show ?thesis
  proof (cases "r = 0")
    case False
    with assms(1) tbl idx have "s1 = ?s1"
      by (auto simp: addEvent_def Let_def split: if_splits option.splits)
    with inv1 show ?thesis by simp
  next
    case True
    with assms(1) tbl idx obtain k where
      un: "events (tbl ! to_size_t fd) AND event_bits e = 0" and ne: "e \<noteq> NONE"
      and s1: "s1 = ?s1\<lparr>m_epoll := k,
                 m_pendingEventCount := m_pendingEventCount s + 1,
                 m_fdContexts := tbl[to_size_t fd :=
                   setEventContext e
                     \<lparr>scheduler = t_scheduler env,
                      fiber = (if f \<noteq> None then None else Some (t_fiber env)), cb = f\<rparr>
                     ((tbl ! to_size_t fd)\<lparr>events := events (tbl ! to_size_t fd) OR event_bits e\<rparr>)]\<rparr>"
      by (cases e) (auto simp: addEvent_def Let_def split: if_splits option.splits)
    from inc_pending [OF inv1] have p: "unat (m_pendingEventCount s + 1) = armed_total tbl + 1"
      by simp
    from armed_total_update [OF idx, of "setEventContext e
                     \<lparr>scheduler = t_scheduler env,
                      fiber = (if f \<noteq> None then None else Some (t_fiber env)), cb = f\<rparr>
                     ((tbl ! to_size_t fd)\<lparr>events := events (tbl ! to_size_t fd) OR event_bits e\<rparr>)"]
      armed_count_arm [OF ne un] p tbl_ok s1
    show ?thesis by (simp add: pending_inv_def)
  qed
qed

lemma delEvent_inv:
  assumes "delEvent s fd e = Inr (r, s1)" and "pending_inv s"
  shows "pending_inv s1 \<and> armed_total (m_fdContexts s1) \<le> armed_total (m_fdContexts s)"
proof (cases "s1 = s")
  case True
  with assms show ?thesis by simp
next
  case False
  let ?i = "to_size_t fd"
  let ?c = "m_fdContexts s ! ?i"
  from False assms(1) obtain k where
    idx: "?i < length (m_fdContexts s)"
    and armed: "events ?c AND event_bits e \<noteq> 0"
    and s1: "s1 = s\<lparr>m_epoll := k,
               m_pendingEventCount := m_pendingEventCount s - 1,
               m_fdContexts := (m_fdContexts s)[?i :=
                 setEventContext e no_EventContext
                   (?c\<lparr>events := events ?c AND NOT (event_bits e)\<rparr>)]\<rparr>"
    by (auto simp: delEvent_def Let_def split: if_splits option.splits)
  from armed_total_update [OF idx, of "setEventContext e no_EventContext
                   (?c\<lparr>events := events ?c AND NOT (event_bits e)\<rparr>)"]
    armed_count_clear [OF armed] assms(2)
  have "unat (m_pendingEventCount s) =
          armed_total ((m_fdContexts s)[?i := setEventContext e no_EventContext
                   (?c\<lparr>events := events ?c AND NOT (event_bits e)\<rparr>)]) + 1"
    by (simp add: pending_inv_def)
  from dec_pending_unat [OF this] this s1 assms(2) show ?thesis
    by (simp add: pending_inv_def)
qed

lemma cancelEvent_inv:
  assumes "cancelEvent s fd e = Inr (r, s1)" and "pending_inv s"
  shows "pending_inv s1 \<and> armed_total (m_fdContexts s1) \<le> armed_total (m_fdContexts s)"
proof (cases "s1 = s")
  case True
  with assms show ?thesis by simp
next
  case False
  let ?i = "to_size_t fd"
  from False assms(1) obtain k where
    idx: "?i < length (m_fdContexts s)"
    and t: "trigger_at e ?i (dec_pending (s\<lparr>m_epoll := k\<rparr>)) = Inr s1"
    by (auto simp: cancelEvent_def Let_def split: if_splits option.splits sum.splits)
  from idx have idx': "?i < length (m_fdContexts (dec_pending (s\<lparr>m_epoll := k\<rparr>)))"
    by (simp add: dec_pending_def)
  from trigger_at_effect [OF t idx'] assms(2)
  have a: "unat (m_pendingEventCount s) = armed_total (m_fdContexts s1) + 1"
    and p: "m_pendingEventCount s1 = m_pendingEventCount s - 1"
    and l: "length (m_fdContexts s1) = length (m_fdContexts s)"
    by (simp_all add: pending_inv_def dec_pending_def)
  from dec_pending_unat [OF a] a p l assms(2) show ?thesis
    by (simp add: pending_inv_def)
qed

lemma cancelAll_inv:
  assumes "cancelAll s fd = Inr (r, s1)" and "pending_inv s"
  shows "pending_inv s1 \<and> armed_total (m_fdContexts s1) \<le> armed_total (m_fdContexts s)"
proof (cases "s1 = s")
  case True
  with assms show ?thesis by simp
next
  case False
  let ?i = "to_size_t fd"
  from False assms(1) have idx: "?i < length (m_fdContexts s)"
    by (simp add: cancelAll_def split: if_splits)
  from False assms(1) idx obtain k where
    k: "epoll_ctl (m_pollable s) (m_epoll s) EPOLL_CTL_DEL fd 0 = Some k"
    by (cases "epoll_ctl (m_pollable s) (m_epoll s) EPOLL_CTL_DEL fd 0")
       (simp_all add: cancelAll_def split: if_splits)
  let ?f1 = "fire_if (events (m_fdContexts s ! ?i) AND event_bits READ \<noteq> 0) READ ?i (s\<lparr>m_epoll := k\<rparr>)"
  from False assms(1) idx k obtain s2 where f1: "?f1 = Inr s2"
    by (cases ?f1) (simp_all add: cancelAll_def split: if_splits)
  let ?f2 = "fire_if (events (m_fdContexts s2 ! ?i) AND event_bits WRITE \<noteq> 0) WRITE ?i s2"
  from False assms(1) idx k f1 obtain s3 where f2: "?f2 = Inr s3"
    by (cases ?f2) (simp_all add: cancelAll_def split: if_splits)
  from False assms(1) idx k f1 f2 have s3: "s3 = s1"
    by (simp add: cancelAll_def split: if_splits)
  from fire_if_inv [OF f1] idx assms(2)
  have i2: "pending_inv s2" and l2: "length (m_fdContexts s2) = length (m_fdContexts s)"
    and a2: "armed_total (m_fdContexts s2) \<le> armed_total (m_fdContexts s)"
    by simp_all
  from fire_if_inv [OF f2] idx l2 i2 a2 s3 show ?thesis by simp
qed

lemma idle_event_inv:
  assumes "idle_event s i ev = Inr s1" and "pending_inv s"
  shows "pending_inv s1 \<and> armed_total (m_fdContexts s1) \<le> armed_total (m_fdContexts s)"
proof (cases "s1 = s")
  case True
  with assms show ?thesis by simp
next
  case False
  let ?c = "m_fdContexts s ! i"
  let ?real = "real_events_of ev (events ?c)"
  let ?left = "events ?c AND NOT ?real"
  let ?ctl = "epoll_ctl (m_pollable s) (m_epoll s)
                (if ?left \<noteq> 0 then EPOLL_CTL_MOD else EPOLL_CTL_DEL) (ctx_fd ?c) (EPOLLET OR ?left)"
  from False assms(1) have idx: "i < length (m_fdContexts s)"
    by (simp add: idle_event_def split: if_splits)
  from False assms(1) idx have ne: "events ?c AND ?real \<noteq> 0"
    by (simp add: idle_event_def Let_def split: if_splits)
  from False assms(1) idx ne obtain k where k: "?ctl = Some k"
    by (cases ?ctl) (simp_all add: idle_event_def Let_def)
  let ?f1 = "fire_if (?real AND event_bits READ \<noteq> 0) READ i (s\<lparr>m_epoll := k\<rparr>)"
  from assms(1) idx ne k obtain s2 where f1: "?f1 = Inr s2"
    by (cases ?f1) (simp_all add: idle_event_def Let_def)
  from assms(1) idx ne k f1 have f2: "fire_if (?real AND event_bits WRITE \<noteq> 0) WRITE i s2 = Inr s1"
    by (simp add: idle_event_def Let_def)
  from fire_if_inv [OF f1] idx assms(2)
  have i2: "pending_inv s2" and l2: "length (m_fdContexts s2) = length (m_fdContexts s)"
    and a2: "armed_total (m_fdContexts s2) \<le> armed_total (m_fdContexts s)"
    by simp_all
  from fire_if_inv [OF f2] idx l2 i2 a2 show ?thesis by simp
qed

lemma map_sum_snd_Inr: "map_sum id snd x = Inr s1 \<Longrightarrow> \<exists>r. x = Inr (r, s1)"
  by (cases x) auto

lemma step_inv:
  assumes "step op s = Inr s1" and "pending_inv s" and "op_fd_ok op"
  shows "pending_inv s1"
proof (cases op)
  case (AddEvent fd e f env)
  with assms(1) have "map_sum id snd (addEvent s fd e f env) = Inr s1" by simp
  from map_sum_snd_Inr [OF this] obtain r where "addEvent s fd e f env = Inr (r, s1)" ..
  from addEvent_inv [OF this assms(2)] assms(3) AddEvent show ?thesis by simp
next
  case (DelEvent fd e)
  with assms(1) have "map_sum id snd (delEvent s fd e) = Inr s1" by simp
  from map_sum_snd_Inr [OF this] obtain r where "delEvent s fd e = Inr (r, s1)" ..
  from delEvent_inv [OF this assms(2)] show ?thesis by simp
next
  case (CancelEvent fd e)
  with assms(1) have "map_sum id snd (cancelEvent s fd e) = Inr s1" by simp
  from map_sum_snd_Inr [OF this] obtain r where "cancelEvent s fd e = Inr (r, s1)" ..
  from cancelEvent_inv [OF this assms(2)] show ?thesis by simp
next
  case (CancelAll fd)
  with assms(1) have "map_sum id snd (cancelAll s fd) = Inr s1" by simp
  from map_sum_snd_Inr [OF this] obtain r where "cancelAll s fd = Inr (r, s1)" ..
  from cancelAll_inv [OF this assms(2)] show ?thesis by simp
next
  case (IdleEvent i ev)
  with assms(1) have "idle_event s i ev = Inr s1" by simp
  from idle_event_inv [OF this assms(2)] show ?thesis by simp
qed

lemma run_inv:
  "run ops s = Inr s1 \<Longrightarrow> pending_inv s \<Longrightarrow> list_all op_fd_ok ops \<Longrightarrow> pending_inv s1"
proof (induction ops arbitrary: s)
  case Nil
  then show ?case by simp
next
  case (Cons op ops)
  from Cons.prems(1) obtain s2 where st: "step op s = Inr s2" and r: "run ops s2 = Inr s1"
    by (auto split: sum.splits)
  from step_inv [OF st Cons.prems(2)] Cons.prems(3) have "pending_inv s2" by simp
  from Cons.IH [OF r this] Cons.prems(3) show ?case by simp
qed

lemma step_clears:
  assumes "step op s = Inr s1" and "pending_inv s" and "\<not> is_AddEvent op"
  shows "armed_total (m_fdContexts s1) \<le> armed_total (m_fdContexts s)"
proof (cases op)
  case (AddEvent fd e f env)
  with assms(3) show ?thesis by simp
next
  case (DelEvent fd e)
  with assms(1) have "map_sum id snd (delEvent s fd e) = Inr s1" by simp
  from map_sum_snd_Inr [OF this] obtain r where "delEvent s fd e = Inr (r, s1)" ..
  from delEvent_inv [OF this assms(2)] show ?thesis by simp
next
  case (CancelEvent fd e)
  with assms(1) have "map_sum id snd (cancelEvent s fd e) = Inr s1" by simp
  from map_sum_snd_Inr [OF this] obtain r where "cancelEvent s fd e = Inr (r, s1)" ..
  from cancelEvent_inv [OF this assms(2)] show ?thesis by simp
next
  case (CancelAll fd)
  with assms(1) have "map_sum id snd (cancelAll s fd) = Inr s1" by simp
  from map_sum_snd_Inr [OF this] obtain r where "cancelAll s fd = Inr (r, s1)" ..
  from cancelAll_inv [OF this assms(2)] show ?thesis by simp
next
  case (IdleEvent i ev)
  with assms(1) have "idle_event s i ev = Inr s1" by simp
  from idle_event_inv [OF this assms(2)] show ?thesis by simp
qed

lemma addEvent_success:
  assumes "addEvent s fd e f env = Inr (0, s1)" and "pending_inv s" and "fd < 2 ^ 30"
  shows "unat (m_pendingEventCount s1) = unat (m_pendingEventCount s) + 1
       \<and> armed_total (m_fdContexts s1) = armed_total (m_fdContexts s) + 1"
proof -
  from assms(1) have p: "m_pendingEventCount s1 = m_pendingEventCount s + 1"
    by (auto simp: addEvent_def Let_def split: if_splits option.splits)
  from addEvent_inv [OF assms] have "pending_inv s1" .
  with inc_pending [OF assms(2)] p assms(2) show ?thesis
    by (simp add: pending_inv_def)
qed

text \<open>
  Claim C1. Reachable states are the results of runs of \<open>addEvent\<close>, \<open>delEvent\<close>,
  \<open>cancelEvent\<close>, \<open>cancelAll\<close> and the idle loop's event handling from the state the
  constructor leaves, for descriptors below \<open>2^30\<close>. In every such state the pending event
  counter equals the number of armed directions summed over all fd contexts; a successful
  \<open>addEvent\<close> raises the counter and that number by exactly one; and each of the other
  operations lowers the counter by exactly the number of directions it clears.
\<close>

theorem pending_count_is_armed_total:
  assumes "run ops (ioManager0 pollable tickle_fd) = Inr s" and "list_all op_fd_ok ops"
  shows "unat (m_pendingEventCount s) = armed_total (m_fdContexts s)
       \<and> (\<forall>fd e f env s1. fd < 2 ^ 30 \<and> addEvent s fd e f env = Inr (0, s1) \<longrightarrow>
             unat (m_pendingEventCount s1) = unat (m_pendingEventCount s) + 1
           \<and> armed_total (m_fdContexts s1) = armed_total (m_fdContexts s) + 1)
       \<and> (\<forall>op s1. \<not> is_AddEvent op \<and> step op s = Inr s1 \<longrightarrow>
             armed_total (m_fdContexts s1) \<le> armed_total (m_fdContexts s)
           \<and> unat (m_pendingEventCount s1)
               + (armed_total (m_fdContexts s) - armed_total (m_fdContexts s1))
             = unat (m_pendingEventCount s))"
proof -
  from run_inv [OF assms(1) pending_inv_init assms(2)] have inv: "pending_inv s" .
  have a: "unat (m_pendingEventCount s) = armed_total (m_fdContexts s)"
    using inv by (simp add: pending_inv_def)
  have b: "unat (m_pendingEventCount s1) = unat (m_pendingEventCount s) + 1
           \<and> armed_total (m_fdContexts s1) = armed_total (m_fdContexts s) + 1"
    if "fd < 2 ^ 30 \<and> addEvent s fd e f env = Inr (0, s1)" for fd e f env s1
    using addEvent_success [of s fd e f env s1] that inv by simp
  have c: "armed_total (m_fdContexts s1) \<le> armed_total (m_fdContexts s)
           \<and> unat (m_pendingEventCount s1)
               + (armed_total (m_fdContexts s) - armed_total (m_fdContexts s1))
             = unat (m_pendingEventCount s)"
    if h: "\<not> is_AddEvent op \<and> step op s = Inr s1" for op s1
  proof -
    from h have st: "step op s = Inr s1" and na: "\<not> is_AddEvent op" by simp_all
    from na have ok: "op_fd_ok op" by (cases op) simp_all
    from step_inv [OF st inv ok] step_clears [OF st inv na] inv show ?thesis
      by (simp add: pending_inv_def)
  qed
  from a b c show ?thesis by blast
qed

lemma run_ops0:
  "(case run ops0 (ioManager0 (\<lambda>_. True) 3) of
      Inl _ \<Rightarrow> False
    | Inr s \<Rightarrow> m_pendingEventCount s = 1 \<and> length (m_fdContexts s) = 60
               \<and> events (m_fdContexts s ! 5) = 4)"
  by code_simp

theorem pending_count_is_armed_total_witness:
  "\<exists>s. run ops0 (ioManager0 (\<lambda>_. True) 3) = Inr s \<and> list_all op_fd_ok ops0
       \<and> m_pendingEventCount s = 1 \<and> armed_total (m_fdContexts s) = 1"
proof -
  from run_ops0 obtain s where r: "run ops0 (ioManager0 (\<lambda>_. True) 3) = Inr s"
    and p: "m_pendingEventCount s = 1"
    by (cases "run ops0 (ioManager0 (\<lambda>_. True) 3)") auto
  have ok: "list_all op_fd_ok ops0" by (simp add: ops0_def)
  from pending_count_is_armed_total [OF r ok] p have "armed_total (m_fdContexts s) = 1"
    by simp
  with r ok p show ?thesis by blast
qed

lemma or_and_not_cancel: "(m::32 word) AND b = 0 \<Longrightarrow> (m OR b) AND NOT b = m"
proof (rule bit_eqI)
  fix n
  assume a: "m AND b = 0"
  have "\<not> (bit m n \<and> bit b n)"
    using a by (metis bit_and_iff bit_0_eq bot_apply bot_bool_def)
  then show "bit ((m OR b) AND NOT b) n = bit m n"
    by (auto simp: bit_and_iff bit_or_iff bit_not_iff dest: bit_imp_possible_bit)
qed

lemma contextResize_nth_new:
  "length tbl \<le> i \<Longrightarrow> i < n \<Longrightarrow> contextResize n tbl ! i = new_FdContext (int i)"
  by (simp add: contextResize_def nth_append)

lemma event_bits_nonzero: "e \<noteq> NONE \<Longrightarrow> event_bits e \<noteq> 0"
  by (cases e) simp_all

lemma or_and_self: "(m::32 word) AND b = 0 \<Longrightarrow> b \<noteq> 0 \<Longrightarrow> (m OR b) AND b \<noteq> 0"
  by (simp add: bit.conj_disj_distrib2)

section \<open>Arming a direction twice\<close>

text \<open>
  Claim C2: on an fd context (a slot of the table) in which direction \<open>d\<close> is already
  armed, \<open>addEvent(fd, d)\<close> returns \<open>-1\<close> and the manager's state is the same as before:
  the armed masks, the kernel registration, the pending event counter and every stored
  continuation.
\<close>

theorem addEvent_twice_refused:
  assumes "0 \<le> fd" and "nat fd < length (m_fdContexts s)" and "length (m_fdContexts s) < 2 ^ 31"
    and "events (m_fdContexts s ! nat fd) AND event_bits d \<noteq> 0"
  shows "addEvent s fd d f env = Inr (- 1, s)"
proof -
  from assms(1-3) have i: "int_of_size (length (m_fdContexts s)) > fd"
    by (simp add: int_of_size_small)
  from assms(1-3) have t: "to_size_t fd = nat fd"
    by (simp add: to_size_t_nonneg)
  from i t assms(2,4) show ?thesis
    by (simp add: addEvent_def Let_def)
qed

section \<open>Arming and disarming a direction\<close>

text \<open>
  Claim C3: where the kernel registration of \<open>fd\<close> mirrors its armed mask, a successful
  \<open>addEvent(fd, d)\<close> (which can only be on an unarmed direction) followed at once by
  \<open>delEvent(fd, d)\<close> makes \<open>delEvent\<close> return \<open>true\<close> and restores the armed mask of
  \<open>fd\<close>, the kernel's interest list and the pending event counter to what they were
  before the \<open>addEvent\<close>.
\<close>

theorem addEvent_delEvent_roundtrip:
  assumes len: "length (m_fdContexts s) < 2 ^ 31" and fd0: "0 \<le> fd" and fd1: "fd < 2 ^ 30"
    and mirror: "kernel_mirrors s fd"
    and add: "addEvent s fd d f env = Inr (0, s1)"
  shows "\<exists>s2. delEvent s1 fd d = Inr (True, s2)
           \<and> armed_mask s2 fd = armed_mask s fd
           \<and> m_epoll s2 = m_epoll s
           \<and> m_pendingEventCount s2 = m_pendingEventCount s"
proof -
  let ?tbl0 = "m_fdContexts s"
  let ?i = "nat fd"
  from fd0 fd1 have ti: "to_size_t fd = ?i" by (simp add: to_size_t_nonneg)
  obtain tbl where tbl: "(if int_of_size (length ?tbl0) > fd then Some ?tbl0
            else map_option (\<lambda>n. contextResize n ?tbl0) (grow_size fd)) = Some tbl"
    using add by (auto simp: addEvent_def split: option.splits)
  from add tbl ti have idx: "?i < length tbl"
    by (auto simp: addEvent_def split: if_splits)
  have tbl_cases: "(fd < int (length ?tbl0) \<and> tbl = ?tbl0)
      \<or> (int (length ?tbl0) \<le> fd \<and> tbl = contextResize (nat ((3 * fd) div 2)) ?tbl0)"
    using tbl len fd0 by (auto simp: int_of_size_small grow_size_def split: if_splits)
  have len1: "length tbl < 2 ^ 31"
  proof -
    from fd1 have "nat ((3 * fd) div 2) < 2 ^ 31" by simp
    moreover have "length ?tbl0 \<le> nat ((3 * fd) div 2)" if "int (length ?tbl0) \<le> fd"
      using that by linarith
    ultimately show ?thesis using tbl_cases len by (auto simp: length_contextResize)
  qed
  let ?c = "tbl ! ?i"
  have old_mask: "events ?c = armed_mask s fd"
  proof -
    from tbl_cases show ?thesis
    proof
      assume h: "fd < int (length ?tbl0) \<and> tbl = ?tbl0"
      with fd0 have "nat fd < length ?tbl0" by linarith
      with fd0 h show ?thesis by (simp add: armed_mask_def)
    next
      assume h: "int (length ?tbl0) \<le> fd \<and> tbl = contextResize (nat ((3 * fd) div 2)) ?tbl0"
      from h have le: "length ?tbl0 \<le> ?i" by linarith
      then have a: "armed_mask s fd = 0" by (simp add: armed_mask_def)
      from h have le2: "length ?tbl0 \<le> nat ((3 * fd) div 2)" by linarith
      from idx h le2 have "?i < nat ((3 * fd) div 2)" by (simp add: length_contextResize)
      with h le have "tbl ! ?i = new_FdContext (int ?i)"
        by (simp add: contextResize_nth_new)
      with a show ?thesis by (simp add: new_FdContext_def)
    qed
  qed
  from add tbl ti idx obtain k where
    un: "events ?c AND event_bits d = 0" and ne: "d \<noteq> NONE"
    and k: "epoll_ctl (m_pollable s) (m_epoll s)
              (if events ?c \<noteq> 0 then EPOLL_CTL_MOD else EPOLL_CTL_ADD) fd
              (EPOLLET OR events ?c OR event_bits d) = Some k"
    and s1: "s1 = s\<lparr>m_fdContexts := tbl, m_epoll := k,
               m_pendingEventCount := m_pendingEventCount s + 1,
               m_fdContexts := tbl[?i :=
                 setEventContext d
                   \<lparr>scheduler = t_scheduler env,
                    fiber = (if f \<noteq> None then None else Some (t_fiber env)), cb = f\<rparr>
                   (?c\<lparr>events := events ?c OR event_bits d\<rparr>)]\<rparr>"
    by (cases d) (auto simp: addEvent_def Let_def split: if_splits option.splits)
  from k have pollable: "m_pollable s fd"
    by (auto simp: epoll_ctl_def split: if_splits)
  have k_eq: "k = (m_epoll s)(fd \<mapsto> EPOLLET OR events ?c OR event_bits d)"
    using k by (auto simp: epoll_ctl_def split: if_splits)
  have bk: "(events ?c OR event_bits d) AND NOT (event_bits d) = events ?c"
    by (rule or_and_not_cancel [OF un])
  have armed1: "(events ?c OR event_bits d) AND event_bits d \<noteq> 0"
    by (rule or_and_self [OF un event_bits_nonzero [OF ne]])
  have gec: "getEventContext d x \<noteq> None" for x
    using ne by (cases d) simp_all
  have restored: "(if events ?c \<noteq> 0 then Some (k(fd \<mapsto> EPOLLET OR events ?c))
                   else Some (k(fd := None))) = Some (m_epoll s)"
  proof (cases "events ?c = 0")
    case True
    with k have "m_epoll s fd = None" by (auto simp: epoll_ctl_def split: if_splits)
    then have "(m_epoll s)(fd := None) = m_epoll s" by (metis fun_upd_triv)
    with True k_eq show ?thesis by simp
  next
    case False
    with mirror old_mask have "m_epoll s fd = Some (EPOLLET OR events ?c)"
      by (simp add: kernel_mirrors_def)
    then have "(m_epoll s)(fd \<mapsto> EPOLLET OR events ?c) = m_epoll s" by (metis fun_upd_triv)
    with False k_eq show ?thesis by simp
  qed
  have ctl: "epoll_ctl (m_pollable s) k
               (if events ?c \<noteq> 0 then EPOLL_CTL_MOD else EPOLL_CTL_DEL) fd
               (EPOLLET OR events ?c) = Some (m_epoll s)"
  proof -
    from k_eq have "k fd \<noteq> None" by simp
    with restored pollable show ?thesis
      by (cases "events ?c = 0") (simp_all add: epoll_ctl_def)
  qed
  let ?s2 = "s1\<lparr>m_epoll := m_epoll s,
               m_pendingEventCount := m_pendingEventCount s1 - 1,
               m_fdContexts := (m_fdContexts s1)[?i :=
                 setEventContext d no_EventContext
                   ((m_fdContexts s1 ! ?i)\<lparr>events := events ?c\<rparr>)]\<rparr>"
  have tbl1: "m_fdContexts s1 = tbl[?i := setEventContext d
                   \<lparr>scheduler = t_scheduler env,
                    fiber = (if f \<noteq> None then None else Some (t_fiber env)), cb = f\<rparr>
                   (?c\<lparr>events := events ?c OR event_bits d\<rparr>)]"
    and ep1: "m_epoll s1 = k" and po1: "m_pollable s1 = m_pollable s"
    and pe1: "m_pendingEventCount s1 = m_pendingEventCount s + 1"
    using s1 by simp_all
  have ev1: "events (m_fdContexts s1 ! ?i) = events ?c OR event_bits d"
    using tbl1 idx by simp
  have len_s1: "length (m_fdContexts s1) = length tbl" using tbl1 by simp
  have del: "delEvent s1 fd d = Inr (True, ?s2)"
    using len1 idx fd0 ti ev1 armed1 bk ctl gec [of "m_fdContexts s1 ! ?i"] len_s1 ep1 po1
    by (auto simp: delEvent_def Let_def int_of_size_small split: option.splits)
  have m2: "armed_mask ?s2 fd = armed_mask s fd"
    using fd0 idx len_s1 old_mask by (simp add: armed_mask_def)
  have p2: "m_pendingEventCount ?s2 = m_pendingEventCount s" using pe1 by simp
  from del m2 p2 show ?thesis by auto
qed

lemma add_5_READ:
  "(case addEvent (ioManager0 (\<lambda>_. True) 3) 5 READ None env0 of
      Inl _ \<Rightarrow> False
    | Inr (r, s1) \<Rightarrow> r = 0 \<and> length (m_fdContexts s1) = 32 \<and> events (m_fdContexts s1 ! 5) = 1)"
  by code_simp

theorem addEvent_twice_refused_witness:
  "\<exists>s1. addEvent (ioManager0 (\<lambda>_. True) 3) 5 READ None env0 = Inr (0, s1)
      \<and> events (m_fdContexts s1 ! nat 5) AND event_bits READ \<noteq> 0
      \<and> addEvent s1 5 READ (Some 9) env0 = Inr (- 1, s1)"
proof -
  from add_5_READ obtain s1 where
    a: "addEvent (ioManager0 (\<lambda>_. True) 3) 5 READ None env0 = Inr (0, s1)"
    and l: "length (m_fdContexts s1) = 32" and e: "events (m_fdContexts s1 ! 5) = 1"
    by (cases "addEvent (ioManager0 (\<lambda>_. True) 3) 5 READ None env0") auto
  have h: "events (m_fdContexts s1 ! nat 5) AND event_bits READ \<noteq> 0"
    using e by simp
  have "addEvent s1 5 READ (Some 9) env0 = Inr (- 1, s1)"
    using l by (intro addEvent_twice_refused [OF _ _ _ h]) simp_all
  with a h show ?thesis by blast
qed

theorem addEvent_delEvent_roundtrip_witness:
  "kernel_mirrors (ioManager0 (\<lambda>_. True) 3) 5
   \<and> (\<exists>s1 s2. addEvent (ioManager0 (\<lambda>_. True) 3) 5 READ None env0 = Inr (0, s1)
        \<and> delEvent s1 5 READ = Inr (True, s2)
        \<and> armed_mask s2 5 = 0 \<and> m_epoll s2 = [3 \<mapsto> EPOLLIN OR EPOLLET]
        \<and> m_pendingEventCount s2 = 0)"
proof -
  let ?s = "ioManager0 (\<lambda>_. True) 3"
  from add_5_READ obtain s1 where a: "addEvent ?s 5 READ None env0 = Inr (0, s1)"
    by (cases "addEvent ?s 5 READ None env0") auto
  have len: "length (m_fdContexts ?s) < 2 ^ 31"
    by (simp add: ioManager0_def length_contextResize)
  have am: "armed_mask ?s 5 = 0"
    by (simp add: armed_mask_def ioManager0_def length_contextResize contextResize_nth_new
        new_FdContext_def)
  then have m: "kernel_mirrors ?s 5"
    by (simp add: kernel_mirrors_def) (simp add: ioManager0_def)
  have e0: "m_epoll ?s = [3 \<mapsto> EPOLLIN OR EPOLLET]" and p0: "m_pendingEventCount ?s = 0"
    by (simp_all add: ioManager0_def)
  from addEvent_delEvent_roundtrip [OF len _ _ m a] obtain s2 where
    "delEvent s1 5 READ = Inr (True, s2)" "armed_mask s2 5 = armed_mask ?s 5"
    "m_epoll s2 = m_epoll ?s" "m_pendingEventCount s2 = m_pendingEventCount ?s"
    by auto
  with a am m e0 p0 show ?thesis by auto
qed

section \<open>Growth of the tables\<close>

lemma addEvent_table:
  assumes "addEvent s fd e f env = Inr (r, s1)"
    and "(if int_of_size (length (m_fdContexts s)) > fd then Some (m_fdContexts s)
            else map_option (\<lambda>n. contextResize n (m_fdContexts s)) (grow_size fd)) = Some tbl"
  shows "length (m_fdContexts s1) = length tbl"
  using assms(1) unfolding addEvent_def assms(2)
  by (auto simp: Let_def split: if_splits option.splits)

lemma floor_one_and_a_half: "\<lfloor>1.5 * real_of_int fd\<rfloor> = (3 * fd) div 2"
proof -
  have "1.5 * real_of_int fd = real_of_int (3 * fd) / real_of_int 2" by simp
  then show ?thesis by (simp only: floor_divide_of_int_eq)
qed

lemma length_resize: "length (resize n d xs) = n"
  by (simp add: resize_def)

text \<open>
  Claim C9, as the code has it: the new size is \<open>fd * 1.5\<close> converted to \<open>size_t\<close>, which
  truncates. For a descriptor \<open>fd \<ge> 2\<close> at or beyond the capacity, \<open>addEvent\<close> grows the
  fd-context table to exactly \<open>\<lfloor>1.5 * fd\<rfloor>\<close> entries, and so does \<open>FdManager::get\<close> on the
  registry when called with \<open>auto_create = true\<close>; with \<open>auto_create = false\<close> the registry
  returns null and does not grow.
\<close>

theorem table_grows_to_floor:
  assumes "2 \<le> fd" and "fd < 2 ^ 31"
  shows "(length (m_fdContexts s) \<le> nat fd \<and> length (m_fdContexts s) < 2 ^ 31
            \<and> addEvent s fd e f env = Inr (r, s1)
          \<longrightarrow> length (m_fdContexts s1) = nat \<lfloor>1.5 * real_of_int fd\<rfloor>)
       \<and> (length datas \<le> nat fd
          \<longrightarrow> (\<exists>c datas1. get datas fd True probe = Inr (Some c, datas1)
                 \<and> length datas1 = nat \<lfloor>1.5 * real_of_int fd\<rfloor>)
              \<and> get datas fd False probe = Inr (None, datas))"
proof -
  let ?n = "nat ((3 * fd) div 2)"
  from assms have ts: "to_size_t fd = nat fd" by (simp add: to_size_t_nonneg)
  from assms have g: "grow_size fd = Some ?n" by (simp add: grow_size_def)
  from assms have big: "nat fd < ?n" by linarith
  have io: "length (m_fdContexts s1) = ?n"
    if h: "length (m_fdContexts s) \<le> nat fd \<and> length (m_fdContexts s) < 2 ^ 31
            \<and> addEvent s fd e f env = Inr (r, s1)"
  proof -
    from h assms have "int (length (m_fdContexts s)) \<le> fd" by linarith
    with h have "\<not> int_of_size (length (m_fdContexts s)) > fd"
      by (simp add: int_of_size_small)
    with g have lk: "(if int_of_size (length (m_fdContexts s)) > fd then Some (m_fdContexts s)
            else map_option (\<lambda>n. contextResize n (m_fdContexts s)) (grow_size fd))
          = Some (contextResize ?n (m_fdContexts s))"
      by simp
    from h big have "length (m_fdContexts s) \<le> ?n" by linarith
    then have "length (contextResize ?n (m_fdContexts s)) = ?n"
      by (rule length_contextResize)
    moreover from h have "addEvent s fd e f env = Inr (r, s1)" by simp
    from addEvent_table [OF this lk] have "length (m_fdContexts s1) = length (contextResize ?n (m_fdContexts s))" .
    ultimately show ?thesis by simp
  qed
  have reg: "(\<exists>c datas1. get datas fd True probe = Inr (Some c, datas1) \<and> length datas1 = ?n)
             \<and> get datas fd False probe = Inr (None, datas)"
    if h: "length datas \<le> nat fd"
  proof -
    from assms have n1: "fd \<noteq> - 1" by simp
    from h ts have le: "length datas \<le> to_size_t fd" by simp
    from big have "\<not> ?n \<le> nat fd" by linarith
    with ts have nle: "\<not> ?n \<le> to_size_t fd" by simp
    have "get datas fd True probe =
            Inr (Some (new_FdCtx fd probe), (resize ?n None datas)[to_size_t fd := Some (new_FdCtx fd probe)])"
      unfolding get_def using n1 le nle g by (simp add: length_resize)
    moreover have "get datas fd False probe = Inr (None, datas)"
      unfolding get_def using n1 le by simp
    ultimately show ?thesis by (simp add: length_resize)
  qed
  from io reg show ?thesis by (simp only: floor_one_and_a_half) blast
qed

lemma grow_examples:
  "map_sum id (\<lambda>(r, s1). (r, length (m_fdContexts s1)))
     (addEvent (ioManager0 (\<lambda>_. True) 3) 33 READ None env0) = Inr (0, 49)
   \<and> map_sum id (\<lambda>(c, datas1). length datas1) (get fdManager0 65 True (Some True)) = Inr 97"
  by code_simp

theorem table_grows_to_floor_witness:
  "(\<exists>s1. addEvent (ioManager0 (\<lambda>_. True) 3) 33 READ None env0 = Inr (0, s1)
       \<and> length (m_fdContexts s1) = 49)
   \<and> (\<exists>c datas1. get fdManager0 65 True (Some True) = Inr (Some c, datas1) \<and> length datas1 = 97)
   \<and> get fdManager0 65 False (Some True) = Inr (None, fdManager0)"
proof -
  let ?s = "ioManager0 (\<lambda>_. True) 3"
  from grow_examples obtain s1 where a: "addEvent ?s 33 READ None env0 = Inr (0, s1)"
    by (cases "addEvent ?s 33 READ None env0") auto
  have l: "length (m_fdContexts ?s) = 32" by (simp add: ioManager0_def length_contextResize)
  have f: "length fdManager0 = 64" by (simp add: fdManager0_def length_resize)
  have "length (m_fdContexts s1) = 49"
    using table_grows_to_floor [of 33 ?s READ None env0 0 s1] a l by simp
  moreover have "(\<exists>c datas1. get fdManager0 65 True (Some True) = Inr (Some c, datas1) \<and> length datas1 = 97)
     \<and> get fdManager0 65 False (Some True) = Inr (None, fdManager0)"
    using table_grows_to_floor [of 65 _ _ _ _ _ _ fdManager0 "Some True"] f by simp
  ultimately show ?thesis using a by blast
qed

text \<open>The claim as stated fails for odd descriptors: for \<open>fd = 33\<close> the table of 32 contexts
  grows to 49 entries and not to \<open>\<lceil>49.5\<rceil> = 50\<close>; for \<open>fd = 65\<close> the registry of 64
  entries grows to 97 and not to 98.\<close>

theorem table_grows_to_ceiling_counterexample:
  "map_sum id (\<lambda>(r, s1). (r, length (m_fdContexts s1)))
     (addEvent (ioManager0 (\<lambda>_. True) 3) 33 READ None env0) = Inr (0, 49)
   \<and> nat \<lceil>1.5 * real_of_int 33\<rceil> = 50
   \<and> map_sum id (\<lambda>(c, datas1). length datas1) (get fdManager0 65 True (Some True)) = Inr 97
   \<and> nat \<lceil>1.5 * real_of_int 65\<rceil> = 98"
proof -
  have "nat \<lceil>1.5 * real_of_int 33\<rceil> = 50" "nat \<lceil>1.5 * real_of_int 65\<rceil> = 98"
    by simp_all
  with grow_examples show ?thesis by simp
qed

section \<open>Order of the timer set\<close>

lemma set_set_insert: "set (set_insert d t us) \<subseteq> insert t (set us)"
  by (induction us) auto

lemma sorted_set_insert:
  "sorted_wrt (\<lambda>a b. d a < d b) us \<Longrightarrow> sorted_wrt (\<lambda>a b. (d a :: int) < d b) (set_insert d t us)"
proof (induction us)
  case Nil
  show ?case by simp
next
  case (Cons u us)
  from Cons.prems have below: "\<forall>b\<in>set us. d u < d b" and rest: "sorted_wrt (\<lambda>a b. d a < d b) us"
    by simp_all
  show ?case
  proof (cases "d t < d u")
    case True
    with below have "\<forall>b\<in>set us. d t < d b" by force
    with True Cons.prems show ?thesis by simp
  next
    case False
    show ?thesis
    proof (cases "d u < d t")
      case True
      have "\<forall>b\<in>set (set_insert d t us). d u < d b"
        using set_set_insert [of d t us] below True by auto
      with True False Cons.IH [OF rest] show ?thesis by simp
    next
      case nlt: False
      with False Cons.prems show ?thesis by simp
    qed
  qed
qed

lemma sorted_remove1:
  "sorted_wrt P us \<Longrightarrow> sorted_wrt P (remove1 u us)"
proof (induction us)
  case Nil
  show ?case by simp
next
  case (Cons a us)
  have "set (remove1 u us) \<subseteq> set us" by (rule set_remove1_subset)
  with Cons show ?case by auto
qed

lemma sorted_distinct:
  "sorted_wrt (\<lambda>a b. (d a :: int) < d b) us \<Longrightarrow> distinct us"
  by (induction us) auto

lemma set_find_Some:
  "set_find d t us = Some u \<Longrightarrow> u \<in> set us \<and> d u = (d t :: int)"
  by (induction us) (auto split: if_splits)

lemma sorted_same_deadline:
  "sorted_wrt (\<lambda>a b. (d a :: int) < d b) us \<Longrightarrow> a \<in> set us \<Longrightarrow> b \<in> set us \<Longrightarrow> d a = d b
     \<Longrightarrow> a = b"
  by (induction us) auto

lemma found_is_self_or_absent:
  assumes "sorted_wrt (\<lambda>a b. (d a :: int) < d b) us" and "set_find d t us = Some u"
  shows "t \<notin> set (remove1 u us)"
proof
  assume t: "t \<in> set (remove1 u us)"
  have sub: "set (remove1 u us) \<subseteq> set us" by (rule set_remove1_subset)
  from set_find_Some [OF assms(2)] have u: "u \<in> set us" and du: "d u = d t" by simp_all
  from t sub have "t \<in> set us" by auto
  from sorted_same_deadline [OF assms(1) u this du] have "u = t" .
  with t sorted_distinct [OF assms(1)] show False by simp
qed

lemma sorted_store_update:
  assumes "timers_sorted s" and "t \<notin> set (m_timers s)"
  shows "timers_sorted (s\<lparr>store := (store s)(t := x)\<rparr>)"
proof -
  have "sorted_wrt (\<lambda>a b. deadline (s\<lparr>store := (store s)(t := x)\<rparr>) a
                          < deadline (s\<lparr>store := (store s)(t := x)\<rparr>) b) (m_timers s)"
    using assms(1) unfolding timers_sorted_def
  proof (rule sorted_wrt_mono_rel [rotated])
    fix a b
    assume "a \<in> set (m_timers s)" "b \<in> set (m_timers s)" "deadline s a < deadline s b"
    with assms(2) show "deadline (s\<lparr>store := (store s)(t := x)\<rparr>) a
                          < deadline (s\<lparr>store := (store s)(t := x)\<rparr>) b"
      by (auto simp: deadline_def)
  qed
  then show ?thesis by (simp add: timers_sorted_def)
qed

lemma deadline_cong:
  "store s' = store s \<Longrightarrow> deadline s' = deadline s"
  by (simp add: deadline_def fun_eq_iff)

lemma wf_insert:
  assumes "timers_wf s" and "t < new_timer s" and "store s' = store s"
    and "new_timer s' = new_timer s" and "m_timers s' = set_insert (deadline s) t (m_timers s)"
  shows "timers_wf s'"
proof -
  from assms(1) have "sorted_wrt (\<lambda>a b. deadline s a < deadline s b) (set_insert (deadline s) t (m_timers s))"
    unfolding timers_wf_def timers_sorted_def by (intro sorted_set_insert) simp
  moreover have "\<forall>u\<in>set (set_insert (deadline s) t (m_timers s)). u < new_timer s"
    using set_set_insert [of "deadline s" t "m_timers s"] assms(1,2)
    by (auto simp: timers_wf_def)
  ultimately show ?thesis
    using assms(3-5) deadline_cong [OF assms(3)] by (simp add: timers_wf_def timers_sorted_def)
qed

lemma wf_remove1:
  assumes "timers_wf s" and "store s' = store s"
    and "new_timer s' = new_timer s" and "m_timers s' = remove1 u (m_timers s)"
  shows "timers_wf s'"
proof -
  from assms(1) have "sorted_wrt (\<lambda>a b. deadline s a < deadline s b) (remove1 u (m_timers s))"
    unfolding timers_wf_def timers_sorted_def by (intro sorted_remove1) simp
  moreover have "\<forall>v\<in>set (remove1 u (m_timers s)). v < new_timer s"
    using set_remove1_subset [of u "m_timers s"] assms(1) by (auto simp: timers_wf_def)
  ultimately show ?thesis
    using assms(2-4) deadline_cong [OF assms(2)] by (simp add: timers_wf_def timers_sorted_def)
qed

lemma wf_store:
  assumes "timers_wf s" and "t \<notin> set (m_timers s)" and "store s' = (store s)(t := x)"
    and "m_timers s' = m_timers s" and "new_timer s \<le> new_timer s'"
  shows "timers_wf s'"
proof -
  from assms(1,2) have "timers_sorted (s\<lparr>store := (store s)(t := x)\<rparr>)"
    by (intro sorted_store_update) (simp_all add: timers_wf_def)
  moreover have "deadline s' = deadline (s\<lparr>store := (store s)(t := x)\<rparr>)"
    using assms(3) by (intro deadline_cong) simp
  ultimately have "timers_sorted s'" using assms(4) by (simp add: timers_sorted_def)
  moreover have "\<forall>u\<in>set (m_timers s'). u < new_timer s'"
    using assms(1,4,5) by (auto simp: timers_wf_def)
  ultimately show ?thesis by (simp add: timers_wf_def)
qed

lemma wf_cb:
  assumes "timers_wf s" and "store s' = (store s)(t := (store s t)\<lparr>m_cb := c\<rparr>)"
    and "m_timers s' = m_timers s" and "new_timer s' = new_timer s"
  shows "timers_wf s'"
proof -
  have "deadline s' = deadline s"
    using assms(2) by (simp add: deadline_def fun_eq_iff)
  with assms show ?thesis by (simp add: timers_wf_def timers_sorted_def)
qed

lemma wf_other:
  assumes "timers_wf s" and "store s' = store s"
    and "m_timers s' = m_timers s" and "new_timer s' = new_timer s"
  shows "timers_wf s'"
  using assms deadline_cong [OF assms(2)] by (simp add: timers_wf_def timers_sorted_def)

lemma addTimer_ptr_wf: "timers_wf s \<Longrightarrow> t < new_timer s \<Longrightarrow> timers_wf (addTimer_ptr s t)"
  by (rule wf_insert [of s t]) (simp_all add: addTimer_ptr_def Let_def)

lemma addTimer_wf: "timers_wf s \<Longrightarrow> timers_wf (snd (addTimer s ms f r now))"
proof -
  assume wf: "timers_wf s"
  let ?t = "new_timer s"
  let ?s1 = "s\<lparr>store := (store s)(?t := \<lparr>m_recurring = r, m_ms = ms,
                                          m_next = now + milliseconds ms, m_cb = f\<rparr>),
                 new_timer := ?t + 1\<rparr>"
  from wf have "?t \<notin> set (m_timers s)" by (auto simp: timers_wf_def)
  with wf have "timers_wf ?s1" by (rule wf_store) simp_all
  then have "timers_wf (addTimer_ptr ?s1 ?t)" by (rule addTimer_ptr_wf) simp
  then show ?thesis by (simp add: addTimer_def Let_def)
qed

lemma cancel_wf: "timers_wf s \<Longrightarrow> timers_wf (snd (cancel s t))"
proof -
  assume wf: "timers_wf s"
  let ?s1 = "s\<lparr>store := (store s)(t := (store s t)\<lparr>m_cb := None\<rparr>)\<rparr>"
  from wf have wf1: "timers_wf ?s1" by (rule wf_cb) simp_all
  show ?thesis
  proof (cases "m_cb (store s t) = None")
    case True
    with wf show ?thesis by (simp add: cancel_def)
  next
    case False
    then obtain c where cb: "m_cb (store s t) = Some c" by auto
    show ?thesis
    proof (cases "set_find (deadline ?s1) t (m_timers ?s1)")
      case None
      with cb wf1 show ?thesis by (simp add: cancel_def Let_def)
    next
      case (Some u)
      from wf1 have "timers_wf (?s1\<lparr>m_timers := remove1 u (m_timers ?s1)\<rparr>)"
        by (rule wf_remove1) simp_all
      with cb Some show ?thesis by (simp add: cancel_def Let_def)
    qed
  qed
qed

lemma erase_found_wf:
  assumes "timers_wf s" and "set_find (deadline s) t (m_timers s) = Some u"
  shows "timers_wf (s\<lparr>m_timers := remove1 u (m_timers s)\<rparr>)"
    and "t \<notin> set (m_timers (s\<lparr>m_timers := remove1 u (m_timers s)\<rparr>))"
proof -
  from assms(1) show "timers_wf (s\<lparr>m_timers := remove1 u (m_timers s)\<rparr>)"
    by (rule wf_remove1) simp_all
  from assms(1) have "sorted_wrt (\<lambda>a b. deadline s a < deadline s b) (m_timers s)"
    by (simp add: timers_wf_def timers_sorted_def)
  from found_is_self_or_absent [OF this assms(2)]
  show "t \<notin> set (m_timers (s\<lparr>m_timers := remove1 u (m_timers s)\<rparr>))" by simp
qed

lemma refresh_wf:
  assumes "timers_wf s" and "t < new_timer s"
  shows "timers_wf (snd (refresh s t now))"
proof (cases "m_cb (store s t) = None \<or> set_find (deadline s) t (m_timers s) = None")
  case True
  with assms(1) show ?thesis by (auto simp: refresh_def)
next
  case False
  then obtain u c where f: "set_find (deadline s) t (m_timers s) = Some u"
    and cb: "m_cb (store s t) = Some c" by auto
  let ?s1 = "s\<lparr>m_timers := remove1 u (m_timers s)\<rparr>"
  let ?s2 = "?s1\<lparr>store := (store ?s1)(t := (store ?s1 t)
                              \<lparr>m_next := now + milliseconds (m_ms (store ?s1 t))\<rparr>)\<rparr>"
  from erase_found_wf [OF assms(1) f] have wf1: "timers_wf ?s1" and nin: "t \<notin> set (m_timers ?s1)" .
  from wf1 nin have wf2: "timers_wf ?s2" by (rule wf_store) simp_all
  from wf2 have "timers_wf (?s2\<lparr>m_timers := set_insert (deadline ?s2) t (m_timers ?s2)\<rparr>)"
    by (rule wf_insert [of ?s2 t]) (use assms(2) in simp_all)
  with cb f show ?thesis by (simp add: refresh_def Let_def)
qed

lemma reset_wf:
  assumes "timers_wf s" and "t < new_timer s"
  shows "timers_wf (snd (reset s t ms from_now now))"
proof (cases "(ms = m_ms (store s t) \<and> \<not> from_now) \<or> m_cb (store s t) = None
              \<or> set_find (deadline s) t (m_timers s) = None")
  case True
  with assms(1) show ?thesis by (auto simp: reset_def)
next
  case False
  then obtain u c where f: "set_find (deadline s) t (m_timers s) = Some u"
    and cb: "m_cb (store s t) = Some c" and nop: "\<not> (ms = m_ms (store s t) \<and> \<not> from_now)"
    by auto
  let ?s1 = "s\<lparr>m_timers := remove1 u (m_timers s)\<rparr>"
  let ?start = "(if from_now then now
                           else m_next (store ?s1 t) - milliseconds (m_ms (store ?s1 t)))"
  let ?s2 = "?s1\<lparr>store := (store ?s1)(t := (store ?s1 t)
                              \<lparr>m_ms := ms, m_next := ?start + milliseconds ms\<rparr>)\<rparr>"
  from erase_found_wf [OF assms(1) f] have wf1: "timers_wf ?s1" and nin: "t \<notin> set (m_timers ?s1)" .
  from wf1 nin have wf2: "timers_wf ?s2" by (rule wf_store) simp_all
  from wf2 have "timers_wf (addTimer_ptr ?s2 t)"
    by (rule addTimer_ptr_wf) (use assms(2) in simp)
  moreover have "reset s t ms from_now now = (True, addTimer_ptr ?s2 t)"
    unfolding reset_def using nop cb f by (auto simp: Let_def)
  ultimately show ?thesis by simp
qed

lemma getNextTimer_wf: "timers_wf s \<Longrightarrow> timers_wf (snd (getNextTimer s now))"
  by (rule wf_other [of s]) (simp_all add: getNextTimer_def Let_def split: list.splits)

lemma expire_loop_wf:
  "expire_loop fuel rollover now s cbs = Some (s1, out) \<Longrightarrow> timers_wf s \<Longrightarrow> timers_wf s1"
proof (induction fuel arbitrary: s cbs)
  case 0
  then show ?case by simp
next
  case (Suc n)
  show ?case
  proof (cases "m_timers s")
    case Nil
    with Suc.prems show ?thesis by simp
  next
    case (Cons t ts)
    show ?thesis
    proof (cases "rollover \<or> deadline s t \<le> now")
      case False
      with Suc.prems Cons show ?thesis by simp
    next
      case True
      let ?s1 = "s\<lparr>m_timers := ts\<rparr>"
      have "remove1 t (m_timers s) = ts" using Cons by simp
      with Suc.prems(2) have wf1: "timers_wf ?s1"
        by (intro wf_remove1 [of s ?s1 t]) simp_all
      from Suc.prems(2) Cons have "distinct (t # ts)"
        using sorted_distinct [of "deadline s" "m_timers s"]
        by (simp add: timers_wf_def timers_sorted_def)
      then have nin: "t \<notin> set (m_timers ?s1)" by simp
      from Suc.prems(2) Cons have tv: "t < new_timer s" by (simp add: timers_wf_def)
      show ?thesis
      proof (cases "m_recurring (store s t)")
        case rec: True
        let ?s2 = "?s1\<lparr>store := (store ?s1)(t := (store s t)
                                  \<lparr>m_next := now + milliseconds (m_ms (store s t))\<rparr>)\<rparr>"
        let ?s3 = "?s2\<lparr>m_timers := set_insert (deadline ?s2) t (m_timers ?s2)\<rparr>"
        from wf1 nin have wf2: "timers_wf ?s2" by (rule wf_store) simp_all
        from wf2 have wf3: "timers_wf ?s3"
          by (rule wf_insert [of ?s2 t]) (use tv in simp_all)
        from Suc.prems(1) Cons True rec
        have "expire_loop n rollover now ?s3 (cbs @ [m_cb (store s t)]) = Some (s1, out)"
          by (simp add: Let_def)
        from Suc.IH [OF this wf3] show ?thesis .
      next
        case nrec: False
        let ?s2 = "?s1\<lparr>store := (store ?s1)(t := (store s t)\<lparr>m_cb := None\<rparr>)\<rparr>"
        from wf1 have wf2: "timers_wf ?s2" by (rule wf_cb) simp_all
        from Suc.prems(1) Cons True nrec
        have "expire_loop n rollover now ?s2 (cbs @ [m_cb (store s t)]) = Some (s1, out)"
          by (simp add: Let_def)
        from Suc.IH [OF this wf2] show ?thesis .
      qed
    qed
  qed
qed

lemma listExpiredCb_wf:
  assumes "listExpiredCb fuel s now now2 cbs = Some (s1, out)" and "timers_wf s"
  shows "timers_wf s1"
proof -
  from assms(2) have "timers_wf (s\<lparr>m_previouseTimer := now2\<rparr>)"
    by (rule wf_other) simp_all
  with assms(1) show ?thesis
    by (auto simp: listExpiredCb_def detectClockRollover_def intro: expire_loop_wf)
qed

lemma timer_step_wf:
  assumes "timer_step op s = Some s1" and "timers_wf s"
  shows "timers_wf s1"
proof (cases op)
  case (AddTimer ms f r now)
  with assms addTimer_wf [of s ms f r now] show ?thesis by auto
next
  case (Cancel t)
  with assms cancel_wf [of s t] show ?thesis by (auto split: if_splits)
next
  case (Refresh t now)
  with assms refresh_wf [of s t now] show ?thesis by (auto split: if_splits)
next
  case (Reset t ms from_now now)
  with assms reset_wf [of s t ms from_now now] show ?thesis by (auto split: if_splits)
next
  case (GetNextTimer now)
  with assms getNextTimer_wf [of s now] show ?thesis by auto
next
  case (ListExpiredCb fuel now now2)
  with assms(1) obtain out where "listExpiredCb fuel s now now2 [] = Some (s1, out)"
    by (cases "listExpiredCb fuel s now now2 []") auto
  from listExpiredCb_wf [OF this assms(2)] show ?thesis .
qed

lemma timer_run_wf:
  "timer_run ops s = Some s1 \<Longrightarrow> timers_wf s \<Longrightarrow> timers_wf s1"
proof (induction ops arbitrary: s)
  case Nil
  then show ?case by simp
next
  case (Cons op ops)
  from Cons.prems(1) obtain s2 where st: "timer_step op s = Some s2" and r: "timer_run ops s2 = Some s1"
    by (auto split: option.splits)
  from Cons.IH [OF r timer_step_wf [OF st Cons.prems(2)]] show ?case .
qed

lemma timerManager0_wf: "timers_wf (timerManager0 now)"
  by (simp add: timers_wf_def timers_sorted_def timerManager0_def)

section \<open>The delay until the next timer\<close>

lemma uint_small: "0 \<le> x \<Longrightarrow> x < 2 ^ 64 \<Longrightarrow> uint (word_of_int x :: 64 word) = x"
  by (simp add: uint_word_of_int)

text \<open>
  Claim C8: \<open>getNextTimer()\<close> changes nothing but the tickled flag, which it clears. It
  returns \<open>UINT64_MAX\<close> when the set is empty, \<open>0\<close> when the deadline of the first timer of
  the set is not later than the current time, and otherwise the whole number of
  milliseconds from the current time to that deadline (the difference of two 64-bit
  tick counts, so below \<open>2^63\<close>). In a set ordered by deadline, as every reachable set is
  (\<open>timers_strictly_ordered\<close>), the first timer is the earliest.
\<close>

theorem getNextTimer_result:
  "snd (getNextTimer s now) = s\<lparr>m_tickled := False\<rparr>
   \<and> m_tickled (snd (getNextTimer s now)) = False
   \<and> (m_timers s = [] \<longrightarrow> fst (getNextTimer s now) = - 1
         \<and> uint (fst (getNextTimer s now)) = 18446744073709551615)
   \<and> (\<forall>t ts. m_timers s = t # ts \<and> deadline s t \<le> now \<longrightarrow> fst (getNextTimer s now) = 0)
   \<and> (\<forall>t ts. m_timers s = t # ts \<and> now < deadline s t \<and> deadline s t - now < 2 ^ 63 \<longrightarrow>
         uint (fst (getNextTimer s now)) = (deadline s t - now) div ticks_per_ms)
   \<and> (\<forall>t ts. m_timers s = t # ts \<and> timers_sorted s \<longrightarrow>
         (\<forall>u\<in>set ts. deadline s t < deadline s u))"
proof -
  have a: "snd (getNextTimer s now) = s\<lparr>m_tickled := False\<rparr>"
    by (simp add: getNextTimer_def Let_def split: list.splits)
  have b: "fst (getNextTimer s now) = - 1 \<and> uint (fst (getNextTimer s now)) = 18446744073709551615"
    if "m_timers s = []"
    using that by (simp add: getNextTimer_def unsigned_minus_1_eq_mask mask_eq_exp_minus_1)
  have c: "fst (getNextTimer s now) = 0" if "m_timers s = t # ts \<and> deadline s t \<le> now" for t ts
    using that by (simp add: getNextTimer_def)
  have d: "uint (fst (getNextTimer s now)) = (deadline s t - now) div ticks_per_ms"
    if h: "m_timers s = t # ts \<and> now < deadline s t \<and> deadline s t - now < 2 ^ 63" for t ts
  proof -
    let ?x = "(deadline s t - now) div ticks_per_ms"
    from h have nn: "0 \<le> deadline s t - now" by simp
    then have "0 \<le> ?x" by (simp add: ticks_per_ms_def pos_imp_zdiv_nonneg_iff)
    moreover from nn have "?x \<le> deadline s t - now"
      by (simp add: ticks_per_ms_def int_div_le_self)
    with h have "?x < 2 ^ 64" by simp
    ultimately have "uint (word_of_int ?x :: 64 word) = ?x" by (rule uint_small)
    with h show ?thesis by (simp add: getNextTimer_def)
  qed
  have e: "\<forall>u\<in>set ts. deadline s t < deadline s u"
    if "m_timers s = t # ts \<and> timers_sorted s" for t ts
    using that by (auto simp: timers_sorted_def)
  from a have a': "m_tickled (snd (getNextTimer s now)) = False" by simp
  from a a' b c d e show ?thesis by blast
qed

section \<open>Draining after a clock rollback\<close>

lemma expire_loop_keeps_cleared:
  "expire_loop fuel True now s cbs = Some (s1, out) \<Longrightarrow> m_cb (store s t) = None
     \<Longrightarrow> m_cb (store s1 t) = None"
proof (induction fuel arbitrary: s cbs)
  case 0
  then show ?case by simp
next
  case (Suc n)
  show ?case
  proof (cases "m_timers s")
    case Nil
    with Suc.prems show ?thesis by simp
  next
    case (Cons u us)
    show ?thesis
    proof (cases "m_recurring (store s u)")
      case True
      let ?s2 = "s\<lparr>m_timers := us,
               store := (store s)(u := (store s u)\<lparr>m_next := now + milliseconds (m_ms (store s u))\<rparr>)\<rparr>"
      let ?s3 = "?s2\<lparr>m_timers := set_insert (deadline ?s2) u (m_timers ?s2)\<rparr>"
      from Suc.prems(1) Cons True
      have "expire_loop n True now ?s3 (cbs @ [m_cb (store s u)]) = Some (s1, out)"
        by (simp add: Let_def)
      moreover have "m_cb (store ?s3 t) = None" using Suc.prems(2) by auto
      ultimately show ?thesis by (rule Suc.IH)
    next
      case False
      let ?s2 = "s\<lparr>m_timers := us, store := (store s)(u := (store s u)\<lparr>m_cb := None\<rparr>)\<rparr>"
      from Suc.prems(1) Cons False
      have "expire_loop n True now ?s2 (cbs @ [m_cb (store s u)]) = Some (s1, out)"
        by (simp add: Let_def)
      moreover have "m_cb (store ?s2 t) = None" using Suc.prems(2) by simp
      ultimately show ?thesis by (rule Suc.IH)
    qed
  qed
qed

lemma expire_all:
  assumes "m_timers s = xs" and "\<forall>t\<in>set xs. \<not> m_recurring (store s t)" and "distinct xs"
    and "length xs < fuel"
  shows "\<exists>s1. expire_loop fuel True now s cbs = Some (s1, cbs @ map (\<lambda>t. m_cb (store s t)) xs)
           \<and> m_timers s1 = [] \<and> m_previouseTimer s1 = m_previouseTimer s
           \<and> (\<forall>t\<in>set xs. m_cb (store s1 t) = None)"
  using assms
proof (induction xs arbitrary: s fuel cbs)
  case Nil
  then obtain n where "fuel = Suc n" by (cases fuel) auto
  with Nil show ?case by simp
next
  case (Cons t ts)
  from Cons.prems(4) obtain n where fuel: "fuel = Suc n" and n: "length ts < n"
    by (cases fuel) auto
  let ?s' = "s\<lparr>m_timers := ts, store := (store s)(t := (store s t)\<lparr>m_cb := None\<rparr>)\<rparr>"
  have step: "expire_loop fuel True now s cbs = expire_loop n True now ?s' (cbs @ [m_cb (store s t)])"
    using Cons.prems(1,2) fuel by (simp add: Let_def)
  from Cons.prems(3) have notin: "t \<notin> set ts" and dist: "distinct ts" by simp_all
  have same: "store ?s' u = store s u" if "u \<in> set ts" for u
    using that notin by auto
  have nr: "\<forall>u\<in>set ts. \<not> m_recurring (store ?s' u)"
    using Cons.prems(2) same by simp
  from Cons.IH [of ?s' n "cbs @ [m_cb (store s t)]", OF _ nr dist n]
  obtain s1 where
    r: "expire_loop n True now ?s' (cbs @ [m_cb (store s t)]) =
          Some (s1, (cbs @ [m_cb (store s t)]) @ map (\<lambda>u. m_cb (store ?s' u)) ts)"
    and e: "m_timers s1 = []" and p: "m_previouseTimer s1 = m_previouseTimer ?s'"
    and c: "\<forall>u\<in>set ts. m_cb (store s1 u) = None"
    by auto
  have m: "map (\<lambda>u. m_cb (store ?s' u)) ts = map (\<lambda>u. m_cb (store s u)) ts"
    using same by (intro map_cong) simp_all
  have "expire_loop fuel True now s cbs =
          Some (s1, cbs @ map (\<lambda>u. m_cb (store s u)) (t # ts))"
    using step r m by simp
  moreover have "m_previouseTimer s1 = m_previouseTimer s" using p by simp
  moreover have "m_cb (store s1 t) = None"
    using expire_loop_keeps_cleared [OF r] by simp
  ultimately show ?case using e c by auto
qed

lemma expire_single_recurring:
  "m_timers s = [t] \<Longrightarrow> m_recurring (store s t) \<Longrightarrow> expire_loop fuel True now s cbs = None"
proof (induction fuel arbitrary: s cbs)
  case 0
  show ?case by simp
next
  case (Suc n)
  let ?s2 = "s\<lparr>m_timers := [],
               store := (store s)(t := (store s t)\<lparr>m_next := now + milliseconds (m_ms (store s t))\<rparr>)\<rparr>"
  let ?s3 = "?s2\<lparr>m_timers := set_insert (deadline ?s2) t (m_timers ?s2)\<rparr>"
  have "expire_loop (Suc n) True now s cbs = expire_loop n True now ?s3 (cbs @ [m_cb (store s t)])"
    using Suc.prems by (simp add: Let_def)
  moreover have "m_timers ?s3 = [t]" by simp
  moreover have "m_recurring (store ?s3 t)" using Suc.prems by simp
  ultimately show ?case using Suc.IH [of ?s3] by simp
qed

section \<open>Timers with equal deadlines\<close>

text \<open>Every set reached from the constructor's state is strictly ordered by deadline: no
  two timers in it have the same deadline.\<close>

lemma timers_strictly_ordered:
  "timer_run ops (timerManager0 now) = Some s \<Longrightarrow> timers_sorted s \<and> distinct (m_timers s)"
proof -
  assume "timer_run ops (timerManager0 now) = Some s"
  from timer_run_wf [OF this timerManager0_wf] have "timers_sorted s" by (simp add: timers_wf_def)
  moreover from this have "distinct (m_timers s)"
    unfolding timers_sorted_def by (rule sorted_distinct)
  ultimately show ?thesis by simp
qed

lemma two_equal_timers_eval:
  "m_timers two_equal_timers = [0]" "new_timer two_equal_timers = 2"
  "store two_equal_timers 0 = \<lparr>m_recurring = False, m_ms = 10, m_next = 10000000, m_cb = Some 1\<rparr>"
  "store two_equal_timers 1 = \<lparr>m_recurring = False, m_ms = 10, m_next = 10000000, m_cb = Some 2\<rparr>"
  by (simp_all add: two_equal_timers_def addTimer_def addTimer_ptr_def Let_def timerManager0_def
      milliseconds_def ticks_per_ms_def deadline_def)

text \<open>
  Claim C6 at the failing input: two timers of 10 ms added at the same clock reading get
  the same deadline. \<open>Timer::Comparator\<close> has no tie-break, so \<open>std::set::insert\<close> takes
  the second timer for a key that is already present: the set holds the first timer
  only, while \<open>addTimer\<close> has returned a handle to the second one, whose callback is set
  and will never be collected.
\<close>

theorem equal_deadline_timer_dropped:
  "fst (addTimer (timerManager0 0) 10 (Some 1) False 0) = 0
   \<and> fst (addTimer (snd (addTimer (timerManager0 0) 10 (Some 1) False 0)) 10 (Some 2) False 0) = 1
   \<and> m_timers two_equal_timers = [0]
   \<and> m_cb (store two_equal_timers 1) = Some 2"
  using two_equal_timers_eval
  by (simp add: addTimer_def addTimer_ptr_def Let_def timerManager0_def)

text \<open>
  Claim C10 at the failing input: the second of the two timers above is absent from the
  set and its callback is set. \<open>reset(20, false)\<close> on it looks it up with
  \<open>std::set::find\<close>, which returns the first timer (an equivalent key); so \<open>reset\<close> does
  not return \<open>false\<close>: it erases the first timer from the set, changes the second timer
  and inserts it, and returns \<open>true\<close>.
\<close>

theorem reset_of_dropped_timer_evicts:
  "1 \<notin> set (m_timers two_equal_timers)
   \<and> fst (reset two_equal_timers 1 20 False 0) = True
   \<and> m_timers (snd (reset two_equal_timers 1 20 False 0)) = [1]
   \<and> m_next (store (snd (reset two_equal_timers 1 20 False 0)) 1) = 20000000"
  using two_equal_timers_eval
  by (simp add: reset_def addTimer_ptr_def Let_def deadline_def milliseconds_def ticks_per_ms_def)

text \<open>What \<open>reset\<close> does otherwise: with the timer's own period and \<open>from_now = false\<close> it
  returns \<open>true\<close> and changes nothing, whatever the state of the timer; any other reset
  returns \<open>false\<close> and changes nothing when the callback is cleared, and when no timer of
  the set has the deadline of this one.\<close>

lemma reset_same_period:
  "reset s t (m_ms (store s t)) False now = (True, s)"
  by (simp add: reset_def)

lemma reset_cleared:
  "m_cb (store s t) = None \<Longrightarrow> \<not> (ms = m_ms (store s t) \<and> \<not> from_now)
     \<Longrightarrow> reset s t ms from_now now = (False, s)"
  by (auto simp: reset_def)

lemma set_find_None:
  "\<forall>u\<in>set us. d u \<noteq> (d t :: int) \<Longrightarrow> set_find d t us = None"
  by (induction us) auto

lemma reset_absent:
  "\<forall>u\<in>set (m_timers s). deadline s u \<noteq> deadline s t
     \<Longrightarrow> \<not> (ms = m_ms (store s t) \<and> \<not> from_now)
     \<Longrightarrow> reset s t ms from_now now = (False, s)"
  by (auto simp: reset_def set_find_None)

text \<open>With no rollback, the loop takes nothing from a set whose first timer is not due.\<close>

lemma expire_loop_not_due:
  "m_timers s = t # ts \<Longrightarrow> now < deadline s t \<Longrightarrow> expire_loop (Suc fuel) False now s cbs = Some (s, cbs)"
  by simp

lemma expire_loop_empty:
  "m_timers s = [] \<Longrightarrow> expire_loop (Suc fuel) rollover now s cbs = Some (s, cbs)"
  by simp

text \<open>
  When the clock reading taken by \<open>detectClockRollover\<close> is more than one hour earlier than
  the reading recorded last, the drain of a set without recurring timers takes every timer
  whatever its deadline: the set is empty afterwards, the callbacks are collected in the
  set's order and cleared in the timers. The drain records its reading, so a later drain
  whose reading is not more than an hour before it runs the loop without the rollback flag,
  on deadlines alone.
\<close>

lemma clock_rollback_drains_all_once:
  assumes "now2 < m_previouseTimer s - milliseconds (60 * 60 * 1000)"
    and "\<forall>t\<in>set (m_timers s). \<not> m_recurring (store s t)"
    and "distinct (m_timers s)"
    and "length (m_timers s) < fuel"
  shows "\<exists>s1. listExpiredCb fuel s now now2 cbs =
                 Some (s1, cbs @ map (\<lambda>t. m_cb (store s t)) (m_timers s))
           \<and> m_timers s1 = []
           \<and> (\<forall>t\<in>set (m_timers s). m_cb (store s1 t) = None)
           \<and> m_previouseTimer s1 = now2
           \<and> (\<forall>s' fuel' now' now2' cbs'.
                 m_previouseTimer s' = now2 \<and> \<not> now2' < now2 - milliseconds (60 * 60 * 1000) \<longrightarrow>
                   listExpiredCb fuel' s' now' now2' cbs' =
                     expire_loop fuel' False now' (s'\<lparr>m_previouseTimer := now2'\<rparr>) cbs'
                 \<and> (\<forall>t ts. m_timers s' = t # ts \<and> now' < deadline s' t \<longrightarrow>
                       listExpiredCb (Suc fuel') s' now' now2' cbs' =
                         Some (s'\<lparr>m_previouseTimer := now2'\<rparr>, cbs')))"
proof -
  let ?s0 = "s\<lparr>m_previouseTimer := now2\<rparr>"
  have st: "store ?s0 = store s" and tm: "m_timers ?s0 = m_timers s" by simp_all
  from assms(2) have nr: "\<forall>t\<in>set (m_timers s). \<not> m_recurring (store ?s0 t)" by simp
  from expire_all [of ?s0 "m_timers s" fuel now cbs, OF tm nr assms(3,4)]
  obtain s1 where
    r: "expire_loop fuel True now ?s0 cbs = Some (s1, cbs @ map (\<lambda>t. m_cb (store s t)) (m_timers s))"
    and e: "m_timers s1 = []" and p: "m_previouseTimer s1 = now2"
    and c: "\<forall>t\<in>set (m_timers s). m_cb (store s1 t) = None"
    by auto
  have first: "listExpiredCb fuel s now now2 cbs =
                 Some (s1, cbs @ map (\<lambda>t. m_cb (store s t)) (m_timers s))"
    using assms(1) r by (simp add: listExpiredCb_def detectClockRollover_def)
  have later: "listExpiredCb fuel' s' now' now2' cbs' =
                     expire_loop fuel' False now' (s'\<lparr>m_previouseTimer := now2'\<rparr>) cbs'
                 \<and> (\<forall>t ts. m_timers s' = t # ts \<and> now' < deadline s' t \<longrightarrow>
                       listExpiredCb (Suc fuel') s' now' now2' cbs' =
                         Some (s'\<lparr>m_previouseTimer := now2'\<rparr>, cbs'))"
    if h: "m_previouseTimer s' = now2 \<and> \<not> now2' < now2 - milliseconds (60 * 60 * 1000)"
    for s' fuel' now' now2' cbs'
  proof -
    have eq: "listExpiredCb f s' now' now2' cbs' =
            expire_loop f False now' (s'\<lparr>m_previouseTimer := now2'\<rparr>) cbs'" for f
      using h by (simp add: listExpiredCb_def detectClockRollover_def)
    have "expire_loop (Suc fuel') False now' (s'\<lparr>m_previouseTimer := now2'\<rparr>) cbs'
            = Some (s'\<lparr>m_previouseTimer := now2'\<rparr>, cbs')"
      if "m_timers s' = t # ts \<and> now' < deadline s' t" for t ts
      using that by (intro expire_loop_not_due [of _ t ts]) (simp_all add: deadline_def)
    with eq show ?thesis by auto
  qed
  from first e c p later show ?thesis by blast
qed

lemma far_timers_eval:
  "m_timers far_timers = [0, 1]" "m_previouseTimer far_timers = 4000000000000"
  "store far_timers 0 = \<lparr>m_recurring = False, m_ms = 5000, m_next = 4005000000000, m_cb = Some 1\<rparr>"
  "store far_timers 1 = \<lparr>m_recurring = False, m_ms = 9000, m_next = 4009000000000, m_cb = Some 2\<rparr>"
  by (simp_all add: far_timers_def addTimer_def addTimer_ptr_def Let_def timerManager0_def
      milliseconds_def ticks_per_ms_def deadline_def)

lemma clock_rollback_drains_all_once_example:
  "(0::int) < m_previouseTimer far_timers - milliseconds (60 * 60 * 1000)
   \<and> (\<exists>s1. listExpiredCb 3 far_timers 0 0 [] = Some (s1, [Some 1, Some 2]) \<and> m_timers s1 = []
          \<and> m_previouseTimer s1 = 0)"
proof -
  have a: "(0::int) < m_previouseTimer far_timers - milliseconds (60 * 60 * 1000)"
    by (simp add: far_timers_eval milliseconds_def ticks_per_ms_def)
  have b: "\<forall>t\<in>set (m_timers far_timers). \<not> m_recurring (store far_timers t)"
    using far_timers_eval by simp
  have c: "distinct (m_timers far_timers)" by (simp add: far_timers_eval)
  have d: "length (m_timers far_timers) < 3" by (simp add: far_timers_eval)
  from clock_rollback_drains_all_once [OF a b c d, of 0 "[]"] a far_timers_eval show ?thesis
    by auto
qed

text \<open>A jump of exactly one hour is no rollback, the test being \<open>now < previous - 1 hour\<close>:
  the recorded reading is one hour, the drain reads 0, and the timer, which is not due,
  stays in the set.\<close>

lemma clock_jump_of_exactly_one_hour:
  "m_previouseTimer hour_timer - 0 = milliseconds (60 * 60 * 1000)
   \<and> m_timers hour_timer = [0]
   \<and> map_option (\<lambda>(s1, out). (m_timers s1, out)) (listExpiredCb 2 hour_timer 0 0 []) = Some ([0], [])"
  by (simp add: hour_timer_def addTimer_def addTimer_ptr_def Let_def timerManager0_def
      milliseconds_def ticks_per_ms_def deadline_def listExpiredCb_def detectClockRollover_def
      numeral_2_eq_2)

lemma rec_timer_eval:
  "m_timers rec_timer = [0]" "m_previouseTimer rec_timer = 4000000000000"
  "store rec_timer 0 = \<lparr>m_recurring = True, m_ms = 5000, m_next = 4005000000000, m_cb = Some 1\<rparr>"
  by (simp_all add: rec_timer_def addTimer_def addTimer_ptr_def Let_def timerManager0_def
      milliseconds_def ticks_per_ms_def deadline_def)

text \<open>
  Claim C7 at the failing input: the set holds one recurring timer, and the drain reads
  the clock at 0, more than one hour before the reading of 4000 s recorded last, so
  \<open>detectClockRollover\<close> reports a rollback. The loop of \<open>listExpiredCb\<close> takes the timer
  from the set, pushes its callback and puts the timer back with a new deadline; the set
  is not empty and the rollback flag still holds, so the loop goes on. Whatever the number
  of iterations allowed, the drain has not returned: it does not pop every timer once, it
  pops the same timer again and again.
\<close>

theorem rollback_with_recurring_timer_never_returns:
  "(0::int) < m_previouseTimer rec_timer - milliseconds (60 * 60 * 1000)
   \<and> m_timers rec_timer = [0] \<and> m_recurring (store rec_timer 0)
   \<and> listExpiredCb fuel rec_timer now 0 cbs = None"
proof -
  have a: "(0::int) < m_previouseTimer rec_timer - milliseconds (60 * 60 * 1000)"
    by (simp add: rec_timer_eval milliseconds_def ticks_per_ms_def)
  have "expire_loop fuel True now (rec_timer\<lparr>m_previouseTimer := 0\<rparr>) cbs = None"
    by (rule expire_single_recurring [of _ 0]) (simp_all add: rec_timer_eval)
  with a have "listExpiredCb fuel rec_timer now 0 cbs = None"
    by (simp add: listExpiredCb_def detectClockRollover_def)
  with a show ?thesis by (simp add: rec_timer_eval)
qed

lemma one_timer_eval:
  "m_timers one_timer = [0]" "deadline one_timer 0 = 5000000" "m_tickled one_timer = True"
  by (simp_all add: one_timer_def addTimer_def addTimer_ptr_def Let_def timerManager0_def
      milliseconds_def ticks_per_ms_def deadline_def)

theorem getNextTimer_result_witness:
  "m_tickled one_timer \<and> \<not> m_tickled (snd (getNextTimer one_timer 2000000))
   \<and> fst (getNextTimer (timerManager0 0) 7) = - 1
   \<and> fst (getNextTimer one_timer 5000000) = 0
   \<and> uint (fst (getNextTimer one_timer 2000000)) = 3"
proof -
  have e: "m_timers (timerManager0 0) = []" by (simp add: timerManager0_def)
  from getNextTimer_result [of one_timer 2000000] getNextTimer_result [of one_timer 5000000]
    getNextTimer_result [of "timerManager0 0" 7] e
  show ?thesis by (simp add: one_timer_eval ticks_per_ms_def)
qed

end
